theory Spec2Isabelle
  imports Main "HOL-Library.Multiset" "HOL-Library.AList" "HOL-Library.List_Lexorder"
    "HOL-Library.Product_Lexorder"
begin

section \<open>Python values\<close>

text \<open>
  A Python \<open>str\<close> is a sequence of Unicode code points; \<open>len\<close> counts code points and
  \<open><\<close> compares lexicographically by code point, which is the order of
  \<open>HOL-Library.List_Lexorder\<close> on \<open>nat list\<close>.  A \<open>dict\<close> is an insertion-ordered
  association list with distinct keys: \<open>d[k] = v\<close> is \<open>AList.update\<close> (in place for a
  present key, appended for a new one), \<open>del d[k]\<close> is \<open>AList.delete\<close>, \<open>d[k]\<close> is
  \<open>dict_get\<close> and raises \<open>KeyError\<close>.  A \<open>Counter\<close> or \<open>defaultdict(int)\<close> reads a
  missing key as 0 (\<open>counter_get\<close>).  Exceptions are values: a fallible function
  returns \<open>py_error + 'a\<close>.
\<close>

type_synonym pystr = "nat list"

datatype py_error = KeyError | IndexError | ValueError

definition bind_err :: "'e + 'a \<Rightarrow> ('a \<Rightarrow> 'e + 'b) \<Rightarrow> 'e + 'b" where
  "bind_err m f = (case m of Inl e \<Rightarrow> Inl e | Inr v \<Rightarrow> f v)"

fun map_err :: "('a \<Rightarrow> 'e + 'b) \<Rightarrow> 'a list \<Rightarrow> 'e + 'b list" where
  "map_err f [] = Inr []"
| "map_err f (x # xs) = bind_err (f x) (\<lambda>y. bind_err (map_err f xs) (\<lambda>ys. Inr (y # ys)))"

definition dict_get :: "('k \<times> 'v) list \<Rightarrow> 'k \<Rightarrow> py_error + 'v" where
  "dict_get d k = (case map_of d k of None \<Rightarrow> Inl KeyError | Some v \<Rightarrow> Inr v)"

definition counter_get :: "('k \<times> int) list \<Rightarrow> 'k \<Rightarrow> int" where
  "counter_get d k = (case map_of d k of None \<Rightarrow> 0 | Some v \<Rightarrow> v)"

definition counter_add :: "'k \<Rightarrow> int \<Rightarrow> ('k \<times> int) list \<Rightarrow> ('k \<times> int) list" where
  "counter_add k n d = AList.update k (counter_get d k + n) d"

definition Counter :: "'k list \<Rightarrow> ('k \<times> int) list" where
  "Counter xs = fold (\<lambda>x. counter_add x 1) xs []"

definition dict_append :: "'k \<Rightarrow> 'v \<Rightarrow> ('k \<times> 'v list) list \<Rightarrow> ('k \<times> 'v list) list" where
  "dict_append k v d =
     AList.update k ((case map_of d k of None \<Rightarrow> [] | Some vs \<Rightarrow> vs) @ [v]) d"

definition list_get :: "('k \<times> 'v list) list \<Rightarrow> 'k \<Rightarrow> 'v list" where
  "list_get d k = (case map_of d k of None \<Rightarrow> [] | Some vs \<Rightarrow> vs)"

definition str_index :: "pystr \<Rightarrow> nat \<Rightarrow> py_error + nat" where
  "str_index w k = (if k < length w then Inr (w ! k) else Inl IndexError)"

definition str :: "string \<Rightarrow> pystr" where
  "str s = map of_char s"

section \<open>Slots and intersections\<close>

text \<open>
  A slot is the dict \<open>{"id", "orient", "length", "cells"}\<close>, an intersection the dict
  \<open>{"slot_a", "pos_a", "slot_b", "pos_b", "cell"}\<close> of
  \<open>build_slots_and_intersections\<close>.  Positions are \<open>enumerate\<close> indices, so naturals.
  The fields \<open>id\<close>, \<open>length\<close> and \<open>cell\<close> are named \<open>slot_id\<close>, \<open>slen\<close> and
  \<open>at_cell\<close> here.
\<close>

type_synonym cell = "int \<times> int"

record slot =
  slot_id :: pystr
  orient :: pystr
  slen :: nat
  cells :: "cell list"

record intersection =
  slot_a :: pystr
  pos_a :: nat
  slot_b :: pystr
  pos_b :: nat
  at_cell :: cell

section \<open>Equivalence classes and slot order\<close>

type_synonym touch = "pystr \<times> nat \<times> nat"
type_synonym pattern = "pystr \<times> nat \<times> touch list"

definition make_by_id :: "slot list \<Rightarrow> (pystr \<times> slot) list" where
  "make_by_id slots = fold (\<lambda>s. AList.update (slot_id s) s) slots []"

fun touches_of :: "(pystr \<times> slot) list \<Rightarrow> pystr \<Rightarrow> intersection list \<Rightarrow> py_error + touch list" where
  "touches_of byid s [] = Inr []"
| "touches_of byid s (x # xs) =
     (if slot_a x = s then
        bind_err (dict_get byid (slot_b x)) (\<lambda>ot.
        bind_err (touches_of byid s xs) (\<lambda>ts. Inr ((orient ot, slen ot, pos_a x) # ts)))
      else if slot_b x = s then
        bind_err (dict_get byid (slot_a x)) (\<lambda>ot.
        bind_err (touches_of byid s xs) (\<lambda>ts. Inr ((orient ot, slen ot, pos_b x) # ts)))
      else touches_of byid s xs)"

fun build_patterns ::
  "(pystr \<times> slot) list \<Rightarrow> intersection list \<Rightarrow> slot list \<Rightarrow> (pystr \<times> pattern) list
     \<Rightarrow> py_error + (pystr \<times> pattern) list" where
  "build_patterns byid inters [] pats = Inr pats"
| "build_patterns byid inters (s # ss) pats =
     bind_err (touches_of byid (slot_id s) inters) (\<lambda>ts.
       build_patterns byid inters ss
         (AList.update (slot_id s) (orient s, slen s, sort ts) pats))"

definition class_key :: "pattern \<times> pystr list \<Rightarrow> pystr \<times> nat \<times> touch list \<times> pystr list" where
  "class_key x = (fst (fst x), fst (snd (fst x)), snd (snd (fst x)), snd x)"

definition slot_equivalence_classes ::
  "slot list \<Rightarrow> intersection list
     \<Rightarrow> py_error + ((pattern \<times> pystr list) list \<times> (pystr \<times> nat) list)" where
  "slot_equivalence_classes slots inters =
     bind_err (build_patterns (make_by_id slots) inters slots []) (\<lambda>patterns.
       let groups = fold (\<lambda>(i, pat). dict_append pat i) patterns [];
           eq_classes = sort_key class_key (map (\<lambda>(pat, is). (pat, sort is)) groups);
           sid_to_class =
             fold (\<lambda>(i, (_, is)) d. fold (\<lambda>i'. AList.update i' i) is d)
               (enumerate 0 eq_classes) []
       in Inr (eq_classes, sid_to_class))"

definition order_slots ::
  "slot list \<Rightarrow> (pystr \<times> pystr list) list \<Rightarrow> intersection list \<Rightarrow> py_error + slot list" where
  "order_slots slots cnd inters =
     (let inter_count =
            fold (\<lambda>x d. counter_add (slot_b x) 1 (counter_add (slot_a x) 1 d)) inters []
      in bind_err
           (map_err (\<lambda>s. bind_err (dict_get cnd (slot_id s)) (\<lambda>ws.
              Inr ((length ws, - counter_get inter_count (slot_id s), slen s), s))) slots)
           (\<lambda>keyed. Inr (map snd (sort_key fst keyed))))"

section \<open>The backtracking search\<close>

text \<open>
  \<open>solver_env\<close> holds what \<open>find_solutions_for_grid\<close> computes once before the search
  (\<open>by_id\<close>, \<open>cross\<close>, \<open>sid_to_class\<close>, \<open>ids\<close>) and its parameters.  The wall clock is an
  oracle: \<open>expired n\<close> is the outcome of the \<open>n\<close>-th evaluation of
  \<open>time.time() >= deadline\<close>, and \<open>checks\<close> counts the evaluations made so far, so every
  timing behaviour is one choice of \<open>expired\<close>.  Progress printing is left out.
\<close>

record solver_env =
  by_id :: "(pystr \<times> slot) list"
  cross :: "(pystr \<times> (pystr \<times> nat \<times> nat) list) list"
  sid_to_class :: "(pystr \<times> nat) list"
  ids :: "pystr list"
  cand :: "(pystr \<times> pystr list) list"
  max_solutions :: int
  expired :: "nat \<Rightarrow> bool"

type_synonym assignment = "(pystr \<times> pystr) list"
type_synonym signature = "(nat \<times> pystr list) list"

record search_state =
  budget :: "(nat \<times> int) list"
  cell_letter :: "(cell \<times> nat) list"
  cell_usage :: "(cell \<times> int) list"
  sol :: assignment
  solutions :: "assignment list"
  seen_signatures :: "signature list"
  checks :: nat

definition tick :: "search_state \<Rightarrow> search_state" where
  "tick st = st\<lparr>checks := Suc (checks st)\<rparr>"

fun class_buckets :: "(pystr \<times> nat) list \<Rightarrow> assignment \<Rightarrow> (nat \<times> pystr list) list
    \<Rightarrow> py_error + (nat \<times> pystr list) list" where
  "class_buckets s2c [] buckets = Inr buckets"
| "class_buckets s2c ((i, word) # rest) buckets =
     bind_err (dict_get s2c i) (\<lambda>cls. class_buckets s2c rest (dict_append cls word buckets))"

definition class_signature :: "(pystr \<times> nat) list \<Rightarrow> assignment \<Rightarrow> py_error + signature" where
  "class_signature s2c current_sol =
     bind_err (class_buckets s2c current_sol []) (\<lambda>buckets.
       Inr (map (\<lambda>cls_idx. (cls_idx, sort (list_get buckets cls_idx)))
              (sort (map fst buckets))))"

fun symmetry_ok :: "pystr \<Rightarrow> pystr \<Rightarrow> assignment \<Rightarrow> pystr list \<Rightarrow> bool" where
  "symmetry_ok i word asg [] = True"
| "symmetry_ok i word asg (prev # rest) =
     (if prev = i then True
      else (case map_of asg prev of
              Some pw \<Rightarrow> if word < pw then False else symmetry_ok i word asg rest
            | None \<Rightarrow> symmetry_ok i word asg rest))"

fun crossing_ok :: "pystr \<Rightarrow> assignment \<Rightarrow> (pystr \<times> nat \<times> nat) list \<Rightarrow> py_error + bool" where
  "crossing_ok word asg [] = Inr True"
| "crossing_ok word asg ((other_id, pos_self, pos_other) # rest) =
     (case map_of asg other_id of
        None \<Rightarrow> crossing_ok word asg rest
      | Some ow \<Rightarrow>
          bind_err (str_index word pos_self) (\<lambda>a.
          bind_err (str_index ow pos_other) (\<lambda>b.
            if a \<noteq> b then Inr False else crossing_ok word asg rest)))"

fun need_cells :: "pystr \<Rightarrow> nat \<Rightarrow> cell list \<Rightarrow> (cell \<times> nat) list \<Rightarrow> (nat \<times> int) list
    \<Rightarrow> py_error + (nat \<times> int) list option" where
  "need_cells word k [] cl need = Inr (Some need)"
| "need_cells word k (c # cs) cl need =
     bind_err (str_index word k) (\<lambda>ch.
       case map_of cl c of
         Some l \<Rightarrow> if l \<noteq> ch then Inr None else need_cells word (Suc k) cs cl need
       | None \<Rightarrow> need_cells word (Suc k) cs cl (counter_add ch 1 need))"

definition can_place :: "solver_env \<Rightarrow> search_state \<Rightarrow> pystr \<Rightarrow> pystr \<Rightarrow> py_error + bool" where
  "can_place E st i word =
     bind_err (dict_get (by_id E) i) (\<lambda>s.
     bind_err (dict_get (sid_to_class E) i) (\<lambda>cls.
     bind_err (map_err (\<lambda>j. bind_err (dict_get (sid_to_class E) j) (\<lambda>c. Inr (j, c))) (ids E))
       (\<lambda>classed.
         let class_members = map fst (filter (\<lambda>(j, c). c = cls) classed) in
         if \<not> symmetry_ok i word (sol st) class_members then Inr False
         else
           bind_err (crossing_ok word (sol st) (list_get (cross E) i)) (\<lambda>ok.
             if \<not> ok then Inr False
             else
               bind_err (need_cells word 0 (cells s) (cell_letter st) []) (\<lambda>nd.
                 case nd of
                   None \<Rightarrow> Inr False
                 | Some need \<Rightarrow>
                     Inr (list_all (\<lambda>(ch, cnt). \<not> cnt > counter_get (budget st) ch) need))))))"

fun place_cells :: "pystr \<Rightarrow> nat \<Rightarrow> cell list \<Rightarrow> search_state \<Rightarrow> py_error + search_state" where
  "place_cells word k [] st = Inr st"
| "place_cells word k (c # cs) st =
     bind_err (str_index word k) (\<lambda>ch.
       let st1 = (if counter_get (cell_usage st) c = 0
                  then st\<lparr>cell_letter := AList.update c ch (cell_letter st),
                          budget := counter_add ch (- 1) (budget st)\<rparr>
                  else st);
           st2 = st1\<lparr>cell_usage := counter_add c 1 (cell_usage st1)\<rparr>
       in place_cells word (Suc k) cs st2)"

definition place :: "solver_env \<Rightarrow> pystr \<Rightarrow> pystr \<Rightarrow> search_state \<Rightarrow> py_error + search_state" where
  "place E i word st =
     bind_err (dict_get (by_id E) i) (\<lambda>s.
     bind_err (place_cells word 0 (cells s) st) (\<lambda>st'.
       Inr (st'\<lparr>sol := AList.update i word (sol st')\<rparr>)))"

fun unplace_cells :: "pystr \<Rightarrow> nat \<Rightarrow> cell list \<Rightarrow> search_state \<Rightarrow> py_error + search_state" where
  "unplace_cells word k [] st = Inr st"
| "unplace_cells word k (c # cs) st =
     bind_err (str_index word k) (\<lambda>ch.
       let st1 = st\<lparr>cell_usage := counter_add c (- 1) (cell_usage st)\<rparr> in
       if counter_get (cell_usage st1) c = 0 then
         (if c \<in> fst ` set (cell_letter st1)
          then unplace_cells word (Suc k) cs
                 (st1\<lparr>cell_letter := AList.delete c (cell_letter st1),
                      budget := counter_add ch 1 (budget st1)\<rparr>)
          else Inl KeyError)
       else unplace_cells word (Suc k) cs st1)"

definition unplace :: "solver_env \<Rightarrow> pystr \<Rightarrow> pystr \<Rightarrow> search_state \<Rightarrow> py_error + search_state" where
  "unplace E i word st =
     bind_err (dict_get (by_id E) i) (\<lambda>s.
     bind_err (unplace_cells word 0 (cells s) st) (\<lambda>st'.
       if i \<in> fst ` set (sol st') then Inr (st'\<lparr>sol := AList.delete i (sol st')\<rparr>)
       else Inl KeyError))"

definition budget_exact :: "search_state \<Rightarrow> bool" where
  "budget_exact st \<longleftrightarrow>
     list_all (\<lambda>(ch, v). v \<ge> 0) (budget st) \<and> sum_list (map snd (budget st)) = 0"

definition record_solution :: "solver_env \<Rightarrow> search_state \<Rightarrow> py_error + search_state" where
  "record_solution E st =
     (if budget_exact st then
        bind_err (class_signature (sid_to_class E) (sol st)) (\<lambda>sig.
          if sig \<notin> set (seen_signatures st)
          then Inr (st\<lparr>seen_signatures := seen_signatures st @ [sig],
                       solutions := solutions st @ [sol st]\<rparr>)
          else Inr st)
      else Inr st)"

text \<open>
  The \<open>for w in cand[sid]\<close> loop of \<open>dfs\<close>; \<open>k\<close> is the recursive call \<open>dfs(idx + 1)\<close>.
  Every \<open>return\<close> inside the loop returns from \<open>dfs\<close>, and nothing follows the loop.
\<close>

fun try_words ::
  "solver_env \<Rightarrow> (search_state \<Rightarrow> py_error + search_state) \<Rightarrow> pystr \<Rightarrow> pystr list
     \<Rightarrow> search_state \<Rightarrow> py_error + search_state" where
  "try_words E k i [] st = Inr st"
| "try_words E k i (w # ws) st =
     (if expired E (checks st) then Inr (tick st)
      else
        bind_err (can_place E (tick st) i w) (\<lambda>ok.
          if ok then
            bind_err (place E i w (tick st)) (\<lambda>st1.
            bind_err (k st1) (\<lambda>st2.
            bind_err (unplace E i w st2) (\<lambda>st3.
              if int (length (solutions st3)) \<ge> max_solutions E then Inr st3
              else if expired E (checks st3) then Inr (tick st3)
              else try_words E k i ws (tick st3))))
          else try_words E k i ws (tick st)))"

text \<open>
  \<open>dfs(idx)\<close> is \<open>dfs E (drop idx ids)\<close>: the argument is the part \<open>ids[idx:]\<close> of the
  slot order that is still to be assigned, so \<open>idx == len(ids)\<close> is the empty list and
  \<open>ids[idx]\<close> its head.  The recursion is structural.
\<close>

primrec dfs :: "solver_env \<Rightarrow> pystr list \<Rightarrow> search_state \<Rightarrow> py_error + search_state" where
  "dfs E [] st =
     (if expired E (checks st) then Inr (tick st)
      else if int (length (solutions st)) \<ge> max_solutions E then Inr (tick st)
      else record_solution E (tick st))"
| "dfs E (i # rest) st =
     (if expired E (checks st) then Inr (tick st)
      else if int (length (solutions st)) \<ge> max_solutions E then Inr (tick st)
      else bind_err (dict_get (cand E) i) (\<lambda>ws. try_words E (dfs E rest) i ws (tick st)))"

definition make_cross :: "intersection list \<Rightarrow> (pystr \<times> (pystr \<times> nat \<times> nat) list) list" where
  "make_cross inters =
     fold (\<lambda>x d. dict_append (slot_b x) (slot_a x, pos_b x, pos_a x)
                   (dict_append (slot_a x) (slot_b x, pos_a x, pos_b x) d)) inters []"

definition initial_state :: "pystr \<Rightarrow> search_state" where
  "initial_state phrase_letters =
     \<lparr>budget = Counter phrase_letters, cell_letter = [], cell_usage = [], sol = [],
      solutions = [], seen_signatures = [], checks = 0\<rparr>"

definition make_env ::
  "slot list \<Rightarrow> intersection list \<Rightarrow> (pystr \<times> pystr list) list \<Rightarrow> int \<Rightarrow> int \<Rightarrow> (nat \<Rightarrow> bool)
     \<Rightarrow> py_error + solver_env" where
  "make_env slots inters cnd per_grid_time max_sol clock =
     bind_err (slot_equivalence_classes slots inters) (\<lambda>(eq_classes, s2c).
     bind_err (order_slots slots cnd inters) (\<lambda>ordered.
       Inr \<lparr>by_id = make_by_id slots, cross = make_cross inters, sid_to_class = s2c,
            ids = map slot_id ordered, cand = cnd, max_solutions = max_sol,
            expired = (\<lambda>n. per_grid_time > 0 \<and> clock n)\<rparr>))"

definition find_solutions_for_grid ::
  "slot list \<Rightarrow> intersection list \<Rightarrow> pystr \<Rightarrow> (pystr \<times> pystr list) list \<Rightarrow> int \<Rightarrow> int
     \<Rightarrow> (nat \<Rightarrow> bool) \<Rightarrow> py_error + assignment list" where
  "find_solutions_for_grid slots inters phrase_letters cnd per_grid_time max_sol clock =
     bind_err (make_env slots inters cnd per_grid_time max_sol clock) (\<lambda>E.
     bind_err (dfs E (ids E) (initial_state phrase_letters)) (\<lambda>st. Inr (solutions st)))"

section \<open>Notions used to state the properties of the search\<close>

text \<open>
  \<open>place_cell\<close> and \<open>unplace_cell\<close> are the bodies of the loops of \<open>place\<close> and \<open>unplace\<close>
  for one cell.  \<open>newly_claimed u word k cs ch\<close> counts the cells of \<open>cs\<close> whose reference
  count under \<open>u\<close> is zero and that receive the letter \<open>ch\<close> from \<open>word[k:]\<close>.
  \<open>frame_eq\<close> says that two states agree outside the four dictionaries of the search.
\<close>

fun newly_claimed :: "(cell \<Rightarrow> int) \<Rightarrow> pystr \<Rightarrow> nat \<Rightarrow> cell list \<Rightarrow> nat \<Rightarrow> int" where
  "newly_claimed u word k [] ch = 0"
| "newly_claimed u word k (c # cs) ch =
     (if u c = 0 \<and> word ! k = ch then 1 else 0) + newly_claimed u word (Suc k) cs ch"

definition place_cell :: "cell \<Rightarrow> nat \<Rightarrow> search_state \<Rightarrow> search_state" where
  "place_cell c ch st =
     (let st1 = (if counter_get (cell_usage st) c = 0
                  then st\<lparr>cell_letter := AList.update c ch (cell_letter st),
                          budget := counter_add ch (- 1) (budget st)\<rparr>
                  else st)
      in st1\<lparr>cell_usage := counter_add c 1 (cell_usage st1)\<rparr>)"

definition frame_eq :: "search_state \<Rightarrow> search_state \<Rightarrow> bool" where
  "frame_eq st st' \<longleftrightarrow> sol st' = sol st \<and> solutions st' = solutions st \<and>
     seen_signatures st' = seen_signatures st \<and> checks st' = checks st"

definition unplace_cell :: "cell \<Rightarrow> nat \<Rightarrow> search_state \<Rightarrow> search_state" where
  "unplace_cell c ch st =
     (let st1 = st\<lparr>cell_usage := counter_add c (- 1) (cell_usage st)\<rparr> in
      if counter_get (cell_usage st1) c = 0
      then st1\<lparr>cell_letter := AList.delete c (cell_letter st1), budget := counter_add ch 1 (budget st1)\<rparr>
      else st1)"

text \<open>
  The invariant of the search.  A piece is the list of (cell, letter) pairs that one placed
  slot writes; \<open>covering P c\<close> counts the pieces of \<open>P\<close> that contain cell \<open>c\<close>, and
  \<open>letter_count cl ch\<close> the cells of \<open>cell_letter\<close> that hold letter \<open>ch\<close>.  \<open>inv0\<close> ties
  the three dictionaries to the placed pieces: reference counts are the numbers of covering
  pieces, a cell has a letter exactly when it is covered, every piece agrees with the
  recorded letters, and budget plus recorded letters is the phrase (conservation).
  \<open>search_inv\<close> is \<open>inv0\<close> for the pieces of the current assignment, with a non-negative
  budget.  \<open>valid_filling\<close> is what a recorded solution satisfies.
\<close>

definition letter_count :: "(cell \<times> nat) list \<Rightarrow> nat \<Rightarrow> nat" where
  "letter_count cl ch = length (filter (\<lambda>p. snd p = ch) cl)"

definition covering :: "(cell \<times> nat) list multiset \<Rightarrow> cell \<Rightarrow> nat" where
  "covering P c = size (filter_mset (\<lambda>p. c \<in> fst ` set p) P)"

definition inv0 :: "pystr \<Rightarrow> (cell \<times> nat) list multiset \<Rightarrow> search_state \<Rightarrow> bool" where
  "inv0 phrase P st \<longleftrightarrow>
     distinct (map fst (cell_letter st)) \<and> distinct (map fst (budget st)) \<and>
     (\<forall>c. counter_get (cell_usage st) c = int (covering P c)) \<and>
     (\<forall>c. c \<in> fst ` set (cell_letter st) \<longrightarrow> 0 < covering P c) \<and>
     (\<forall>p c l. p \<in># P \<longrightarrow> (c, l) \<in> set p \<longrightarrow> map_of (cell_letter st) c = Some l) \<and>
     (\<forall>ch. counter_get (budget st) ch + int (letter_count (cell_letter st) ch)
             = int (count_list phrase ch))"

definition slot_cells :: "solver_env \<Rightarrow> pystr \<Rightarrow> cell list" where
  "slot_cells E i = (case map_of (by_id E) i of Some s \<Rightarrow> cells s | None \<Rightarrow> [])"

definition pieces_of :: "solver_env \<Rightarrow> assignment \<Rightarrow> (cell \<times> nat) list multiset" where
  "pieces_of E asg = image_mset (\<lambda>iw. zip (slot_cells E (fst iw)) (snd iw)) (mset asg)"

definition search_inv :: "solver_env \<Rightarrow> pystr \<Rightarrow> search_state \<Rightarrow> bool" where
  "search_inv E phrase st \<longleftrightarrow>
     inv0 phrase (pieces_of E (sol st)) st \<and> distinct (map fst (sol st)) \<and>
     (\<forall>ch. 0 \<le> counter_get (budget st) ch) \<and>
     (\<forall>iw \<in> set (sol st). length (slot_cells E (fst iw)) \<le> length (snd iw))"

definition valid_filling :: "solver_env \<Rightarrow> pystr \<Rightarrow> assignment \<Rightarrow> bool" where
  "valid_filling E phrase a \<longleftrightarrow>
     fst ` set a = set (ids E) \<and> distinct (map fst a) \<and>
     (\<exists>cl. distinct (map fst cl) \<and>
        (\<forall>c. c \<in> fst ` set cl \<longleftrightarrow> (\<exists>i \<in> set (ids E). c \<in> set (slot_cells E i))) \<and>
        (\<forall>iw \<in> set a. length (slot_cells E (fst iw)) \<le> length (snd iw) \<and>
            (\<forall>j < length (slot_cells E (fst iw)).
               map_of cl (slot_cells E (fst iw) ! j) = Some (snd iw ! j))) \<and>
        mset (map snd cl) = mset phrase)"

definition grows :: "solver_env \<Rightarrow> pystr \<Rightarrow> search_state \<Rightarrow> search_state \<Rightarrow> bool" where
  "grows E phrase s s' \<longleftrightarrow>
     (\<exists>new. solutions s' = solutions s @ new \<and> (\<forall>a \<in> set new. valid_filling E phrase a))"

definition word_of :: "assignment \<Rightarrow> pystr \<Rightarrow> pystr" where
  "word_of a i = (case map_of a i of Some w \<Rightarrow> w | None \<Rightarrow> [])"

definition solution_grid :: "slot list \<Rightarrow> assignment \<Rightarrow> (cell \<times> nat) list" where
  "solution_grid slots a =
     fold (\<lambda>s. fold (\<lambda>cl. AList.update (fst cl) (snd cl)) (zip (cells s) (word_of a (slot_id s))))
       slots []"

definition crossing_of :: "slot list \<Rightarrow> intersection \<Rightarrow> bool" where
  "crossing_of slots x \<longleftrightarrow>
     (\<exists>sa \<in> set slots. \<exists>sb \<in> set slots. slot_id sa = slot_a x \<and> slot_id sb = slot_b x \<and>
        pos_a x < length (cells sa) \<and> pos_b x < length (cells sb) \<and>
        cells sa ! pos_a x = at_cell x \<and> cells sb ! pos_b x = at_cell x)"

definition demo_H :: slot where
  "demo_H = \<lparr>slot_id = str ''H'', orient = str ''H'', slen = 2, cells = [(0, 0), (0, 1)]\<rparr>"

definition demo_V :: slot where
  "demo_V = \<lparr>slot_id = str ''V'', orient = str ''V'', slen = 2, cells = [(0, 0), (1, 0)]\<rparr>"

definition demo_x :: intersection where
  "demo_x = \<lparr>slot_a = str ''H'', pos_a = 0, slot_b = str ''V'', pos_b = 0, at_cell = (0, 0)\<rparr>"

definition demo_cand :: "(pystr \<times> pystr list) list" where
  "demo_cand = [(str ''H'', [str ''AB'', str ''AC'']), (str ''V'', [str ''AC'', str ''AB''])]"

definition demo_env :: solver_env where
  "demo_env = \<lparr>by_id = make_by_id [demo_H, demo_V], cross = make_cross [demo_x],
     sid_to_class = [(str ''H'', 0), (str ''V'', 1)], ids = [str ''H'', str ''V''],
     cand = demo_cand, max_solutions = 5, expired = (\<lambda>_. False)\<rparr>"

text \<open>
  \<open>draw ps g\<close> writes the (cell, letter) pairs \<open>ps\<close> into the grid \<open>g\<close>.
\<close>

abbreviation draw :: "(cell \<times> nat) list \<Rightarrow> (cell \<times> nat) list \<Rightarrow> (cell \<times> nat) list" where
  "draw ps g \<equiv> fold (\<lambda>cl. AList.update (fst cl) (snd cl)) ps g"

text \<open>
  \<open>sig_inv\<close>: the signatures of the recorded solutions are, in order, the members of
  \<open>seen_signatures\<close>, and these are pairwise different.
\<close>

definition sig_inv :: "solver_env \<Rightarrow> search_state \<Rightarrow> bool" where
  "sig_inv E st \<longleftrightarrow>
     map (class_signature (sid_to_class E)) (solutions st) = map Inr (seen_signatures st) \<and>
     distinct (seen_signatures st)"

text \<open>
  \<open>total_env\<close> collects what the search relies on not to raise: every slot of the
  order is in \<open>by_id\<close> (with pairwise distinct cells) and in \<open>sid_to_class\<close>, has a candidate
  list whose words are at least as long as the slot, and the positions recorded in \<open>cross\<close>
  are inside the slots.  \<open>pool_inv\<close> says that every assigned word comes from the slot's
  candidate list, \<open>grows_pool\<close> that the solutions added satisfy it.
\<close>

definition total_env :: "solver_env \<Rightarrow> bool" where
  "total_env E \<longleftrightarrow> distinct (ids E) \<and> (\<forall>i \<in> set (ids E).
     (\<exists>s. dict_get (by_id E) i = Inr s \<and> distinct (cells s)) \<and>
     i \<in> fst ` set (sid_to_class E) \<and>
     (\<exists>ws. dict_get (cand E) i = Inr ws \<and> (\<forall>w \<in> set ws. length (slot_cells E i) \<le> length w)) \<and>
     (\<forall>e \<in> set (list_get (cross E) i). fst (snd e) < length (slot_cells E i) \<and>
        (fst e \<in> set (ids E) \<longrightarrow> snd (snd e) < length (slot_cells E (fst e)))))"

definition pool_inv :: "solver_env \<Rightarrow> assignment \<Rightarrow> bool" where
  "pool_inv E a \<longleftrightarrow> (\<forall>iw \<in> set a. snd iw \<in> set (list_get (cand E) (fst iw)))"

definition grows_pool :: "solver_env \<Rightarrow> search_state \<Rightarrow> search_state \<Rightarrow> bool" where
  "grows_pool E s s' \<longleftrightarrow>
     (\<exists>new. solutions s' = solutions s @ new \<and> (\<forall>a \<in> set new. pool_inv E a))"

text \<open>
  \<open>well_formed\<close> is the input that \<open>main\<close> passes: slots with pairwise distinct ids and
  cells, intersections that are crossings of the slots, and for every slot a candidate list
  of words that fit the slot.  \<open>exact_filling\<close> is an assignment of candidate words whose
  letters agree on shared cells and use exactly the phrase letters.  \<open>members\<close> is the set
  of values stored in a \<open>defaultdict(list)\<close>.
\<close>

definition well_formed :: "slot list \<Rightarrow> intersection list \<Rightarrow> (pystr \<times> pystr list) list \<Rightarrow> bool" where
  "well_formed slots inters cnd \<longleftrightarrow>
     distinct (map slot_id slots) \<and> (\<forall>s \<in> set slots. distinct (cells s)) \<and>
     (\<forall>x \<in> set inters. crossing_of slots x) \<and>
     (\<forall>s \<in> set slots. \<exists>ws. map_of cnd (slot_id s) = Some ws \<and>
        (\<forall>w \<in> set ws. length (cells s) \<le> length w))"

definition exact_filling :: "slot list \<Rightarrow> (pystr \<times> pystr list) list \<Rightarrow> pystr \<Rightarrow> assignment \<Rightarrow> bool" where
  "exact_filling slots cnd phrase a \<longleftrightarrow>
     fst ` set a = slot_id ` set slots \<and>
     (\<forall>s \<in> set slots. word_of a (slot_id s) \<in> set (list_get cnd (slot_id s)) \<and>
        (\<forall>j < length (cells s).
           map_of (solution_grid slots a) (cells s ! j) = Some (word_of a (slot_id s) ! j))) \<and>
     mset (map snd (solution_grid slots a)) = mset phrase"

definition members :: "('k \<times> 'v list) list \<Rightarrow> 'v set" where
  "members d = (\<Union>p \<in> set d. set (snd p))"

text \<open>
  A candidate pool in which every word needs the letter A twice, for a phrase that supplies
  it once.
\<close>

definition scarce_cand :: "(pystr \<times> pystr list) list" where
  "scarce_cand = [(str ''H'', [str ''AA'']), (str ''V'', [str ''AA''])]"

text \<open>
  The state of the demo layout after \<open>place("H", "AB")\<close> in the initial state for the phrase
  letters ABC: the cell \<open>(0, 0)\<close>, which slot V shares, has the letter A and reference
  count 1.
\<close>

definition demo_placed :: search_state where
  "demo_placed =
     \<lparr>budget = [(65, 0), (66, 0), (67, 1)],
      cell_letter = [((0, 0), 65), ((0, 1), 66)],
      cell_usage = [((0, 0), 1), ((0, 1), 1)],
      sol = [(str ''H'', str ''AB'')],
      solutions = [], seen_signatures = [], checks = 0\<rparr>"

text \<open>
  The canonical signature of an assignment, as the specification words it: the classes that
  have an assigned member, in increasing order of their index, each with the sorted list of
  the words assigned to its members.  The class of a slot is the one that
  \<open>slot_equivalence_classes\<close> gives it in \<open>sid_to_class\<close>.
\<close>

definition class_words :: "(pystr \<times> nat) list \<Rightarrow> assignment \<Rightarrow> nat \<Rightarrow> pystr list" where
  "class_words s2c a n = sort (map snd (filter (\<lambda>iw. map_of s2c (fst iw) = Some n) a))"

definition canonical_signature :: "(pystr \<times> nat) list \<Rightarrow> assignment \<Rightarrow> signature" where
  "canonical_signature s2c a =
     map (\<lambda>n. (n, class_words s2c a n))
       (sort (remdups (List.map_filter (\<lambda>iw. map_of s2c (fst iw)) a)))"

text \<open>
  A layout with two across slots of the same shape, both crossing one down slot, so that
  the across slots form one equivalence class; the candidate list of H2 repeats its word.
\<close>

definition dup_slots :: "slot list" where
  "dup_slots =
     [\<lparr>slot_id = str ''H1'', orient = str ''H'', slen = 2, cells = [(0, 0), (0, 1)]\<rparr>,
      \<lparr>slot_id = str ''H2'', orient = str ''H'', slen = 2, cells = [(2, 0), (2, 1)]\<rparr>,
      \<lparr>slot_id = str ''V1'', orient = str ''V'', slen = 3, cells = [(0, 0), (1, 0), (2, 0)]\<rparr>]"

definition dup_inters :: "intersection list" where
  "dup_inters =
     [\<lparr>slot_a = str ''H1'', pos_a = 0, slot_b = str ''V1'', pos_b = 0, at_cell = (0, 0)\<rparr>,
      \<lparr>slot_a = str ''H2'', pos_a = 0, slot_b = str ''V1'', pos_b = 2, at_cell = (2, 0)\<rparr>]"

definition dup_cand :: "(pystr \<times> pystr list) list" where
  "dup_cand = [(str ''H1'', [str ''AB'', str ''AD'']), (str ''H2'', [str ''AX'', str ''AX'']),
               (str ''V1'', [str ''ADA'', str ''ABA''])]"

definition dup_s2c :: "(pystr \<times> nat) list" where
  "dup_s2c = [(str ''H1'', 0), (str ''H2'', 0), (str ''V1'', 1)]"

definition dup_env :: solver_env where
  "dup_env = \<lparr>by_id = make_by_id dup_slots, cross = make_cross dup_inters,
     sid_to_class = dup_s2c, ids = [str ''V1'', str ''H1'', str ''H2''],
     cand = dup_cand, max_solutions = 5, expired = (\<lambda>_. False)\<rparr>"

text \<open>
  The state in which the search reaches the goal test for the second time with the
  assignment V1 = ADA, H1 = AB, H2 = AX (by the repeated candidate of H2).
\<close>

definition dup_goal :: search_state where
  "dup_goal =
     \<lparr>budget = [(65, 0), (66, 0), (68, 0), (88, 0)],
      cell_letter = [((0, 0), 65), ((1, 0), 68), ((2, 0), 65), ((0, 1), 66), ((2, 1), 88)],
      cell_usage = [((0, 0), 2), ((1, 0), 1), ((2, 0), 2), ((0, 1), 1), ((2, 1), 1)],
      sol = [(str ''V1'', str ''ADA''), (str ''H1'', str ''AB''), (str ''H2'', str ''AX'')],
      solutions = [[(str ''V1'', str ''ADA''), (str ''H1'', str ''AB''), (str ''H2'', str ''AX'')]],
      seen_signatures = [[(0, [str ''AB'', str ''AX'']), (1, [str ''ADA''])]],
      checks = 9\<rparr>"

text \<open>
  The search again, with a log.  \<open>dfs_log\<close> and \<open>try_words_log\<close> run \<open>dfs\<close> and its loop
  step for step and record, in order, the state right after every \<open>place\<close>, the state
  right after every \<open>unplace\<close>, and the state in which the goal test
  \<open>all(v >= 0 for v in budget.values()) and sum(budget.values()) == 0\<close> is evaluated.  A
  logged computation is the pair of the events so far and the outcome; an exception keeps
  the events logged before it.
\<close>

datatype event = Placed search_state | Unplaced search_state | Goal_test search_state

fun state_of :: "event \<Rightarrow> search_state" where
  "state_of (Placed st) = st"
| "state_of (Unplaced st) = st"
| "state_of (Goal_test st) = st"

type_synonym 'a logged = "event list \<times> (py_error + 'a)"

definition bind_log :: "'a logged \<Rightarrow> ('a \<Rightarrow> 'b logged) \<Rightarrow> 'b logged" where
  "bind_log m f =
     (case m of
        (l, Inl e) \<Rightarrow> (l, Inl e)
      | (l, Inr v) \<Rightarrow> (case f v of (l', r) \<Rightarrow> (l @ l', r)))"

definition quiet :: "py_error + 'a \<Rightarrow> 'a logged" where
  "quiet m = ([], m)"

definition logging :: "('a \<Rightarrow> event) \<Rightarrow> py_error + 'a \<Rightarrow> 'a logged" where
  "logging ev m = (case m of Inl e \<Rightarrow> ([], Inl e) | Inr v \<Rightarrow> ([ev v], Inr v))"

fun try_words_log ::
  "solver_env \<Rightarrow> (search_state \<Rightarrow> search_state logged) \<Rightarrow> pystr \<Rightarrow> pystr list
     \<Rightarrow> search_state \<Rightarrow> search_state logged" where
  "try_words_log E k i [] st = quiet (Inr st)"
| "try_words_log E k i (w # ws) st =
     (if expired E (checks st) then quiet (Inr (tick st))
      else
        bind_log (quiet (can_place E (tick st) i w)) (\<lambda>ok.
          if ok then
            bind_log (logging Placed (place E i w (tick st))) (\<lambda>st1.
            bind_log (k st1) (\<lambda>st2.
            bind_log (logging Unplaced (unplace E i w st2)) (\<lambda>st3.
              if int (length (solutions st3)) \<ge> max_solutions E then quiet (Inr st3)
              else if expired E (checks st3) then quiet (Inr (tick st3))
              else try_words_log E k i ws (tick st3))))
          else try_words_log E k i ws (tick st)))"

primrec dfs_log :: "solver_env \<Rightarrow> pystr list \<Rightarrow> search_state \<Rightarrow> search_state logged" where
  "dfs_log E [] st =
     (if expired E (checks st) then quiet (Inr (tick st))
      else if int (length (solutions st)) \<ge> max_solutions E then quiet (Inr (tick st))
      else ([Goal_test (tick st)], record_solution E (tick st)))"
| "dfs_log E (i # rest) st =
     (if expired E (checks st) then quiet (Inr (tick st))
      else if int (length (solutions st)) \<ge> max_solutions E then quiet (Inr (tick st))
      else bind_log (quiet (dict_get (cand E) i)) (\<lambda>ws.
             try_words_log E (dfs_log E rest) i ws (tick st)))"

definition find_solutions_logged ::
  "slot list \<Rightarrow> intersection list \<Rightarrow> pystr \<Rightarrow> (pystr \<times> pystr list) list \<Rightarrow> int \<Rightarrow> int
     \<Rightarrow> (nat \<Rightarrow> bool) \<Rightarrow> assignment list logged" where
  "find_solutions_logged slots inters phrase_letters cnd per_grid_time max_sol clock =
     bind_log (quiet (make_env slots inters cnd per_grid_time max_sol clock)) (\<lambda>E.
     bind_log (dfs_log E (ids E) (initial_state phrase_letters)) (\<lambda>st.
       quiet (Inr (solutions st))))"

text \<open>
  The invariant of C9 as the claim words it: for every letter the budget is not negative,
  and the budget plus the number of cells that \<open>cell_letter\<close> maps to the letter is the
  number of occurrences of the letter in the phrase letters.
\<close>

definition budget_ok :: "pystr \<Rightarrow> search_state \<Rightarrow> bool" where
  "budget_ok phrase st \<longleftrightarrow>
     distinct (map fst (cell_letter st)) \<and>
     (\<forall>ch. 0 \<le> counter_get (budget st) ch \<and>
           counter_get (budget st) ch + int (letter_count (cell_letter st) ch)
             = int (count_list phrase ch))"

text \<open>
  The state of the demo layout in which the goal test is evaluated for the first time:
  H holds AB and V holds AC.
\<close>

definition demo_goal :: search_state where
  "demo_goal =
     \<lparr>budget = [(65, 0), (66, 0), (67, 0)],
      cell_letter = [((0, 0), 65), ((0, 1), 66), ((1, 0), 67)],
      cell_usage = [((0, 0), 2), ((0, 1), 1), ((1, 0), 1)],
      sol = [(str ''H'', str ''AB''), (str ''V'', str ''AC'')],
      solutions = [], seen_signatures = [], checks = 5\<rparr>"

text \<open>
  \<open>clean_phrase\<close> and \<open>load_dictionary\<close> call the Python runtime: \<open>unicodedata.normalize\<close>,
  \<open>unicodedata.combining\<close>, \<open>str.upper\<close>, \<open>str.strip\<close>, \<open>str.isdigit\<close> and \<open>int\<close>.  Their
  data is the Unicode Character Database, which is not part of the repository, so it is a
  parameter \<open>U\<close> of the model: \<open>decomp\<close> is the full compatibility decomposition of one
  code point, \<open>ccc\<close> its canonical combining class (\<open>unicodedata.combining\<close>), \<open>upper_of\<close> its
  full uppercase mapping, \<open>is_space\<close> and \<open>is_digit\<close> the character tests behind
  \<open>str.isspace\<close> and \<open>str.isdigit\<close>, \<open>decimal_value\<close> the value of a decimal digit as
  \<open>int\<close> reads it, and \<open>max_str_digits\<close> the interpreter's limit on the length of a digit
  string that \<open>int\<close> converts (\<open>None\<close>: no limit).  NFKD is the decomposition of every
  code point followed by the canonical ordering of combining marks (a stable exchange of
  adjacent marks in decreasing class order).
\<close>

record ucd =
  decomp :: "nat \<Rightarrow> nat list"
  ccc :: "nat \<Rightarrow> nat"
  upper_of :: "nat \<Rightarrow> nat list"
  is_space :: "nat \<Rightarrow> bool"
  is_digit :: "nat \<Rightarrow> bool"
  decimal_value :: "nat \<Rightarrow> nat option"
  max_str_digits :: "nat option"

fun reorder_insert :: "(nat \<Rightarrow> nat) \<Rightarrow> nat \<Rightarrow> nat list \<Rightarrow> nat list" where
  "reorder_insert cc x [] = [x]"
| "reorder_insert cc x (y # ys) =
     (if cc y \<noteq> 0 \<and> cc y < cc x then y # reorder_insert cc x ys else x # y # ys)"

definition canonical_order :: "(nat \<Rightarrow> nat) \<Rightarrow> nat list \<Rightarrow> nat list" where
  "canonical_order cc xs = foldr (reorder_insert cc) xs []"

definition normalize_NFKD :: "ucd \<Rightarrow> pystr \<Rightarrow> pystr" where
  "normalize_NFKD U p = canonical_order (ccc U) (concat (map (decomp U) p))"

definition single_letter_map :: "(nat \<times> nat) list" where
  "single_letter_map =
     [(223, 83), (7838, 83), (198, 69), (230, 101), (338, 69), (339, 101), (216, 79),
      (248, 111), (208, 68), (240, 100), (222, 84), (254, 116), (321, 76), (322, 108),
      (197, 65), (229, 97)]"

definition clean_phrase :: "ucd \<Rightarrow> pystr \<Rightarrow> pystr" where
  "clean_phrase U p =
     (let norm = normalize_NFKD U p;
          no_marks = filter (\<lambda>ch. \<not> ccc U ch \<noteq> 0) norm;
          mapped = map (\<lambda>ch. case map_of single_letter_map ch of Some v \<Rightarrow> v | None \<Rightarrow> ch) no_marks;
          upper = concat (map (upper_of U) mapped)
      in filter (\<lambda>ch. 65 \<le> ch \<and> ch \<le> 90) upper)"

text \<open>
  \<open>strip\<close> and \<open>isdigit\<close> are \<open>str.strip()\<close> and \<open>str.isdigit()\<close>.  \<open>py_int\<close> is \<open>int(s)\<close> for
  a string that \<open>isdigit\<close> accepted: \<open>int\<close> raises \<open>ValueError\<close> on a digit that is not a
  decimal digit (a superscript two, say) and on a string longer than the interpreter's
  limit.  \<open>split_tab line\<close> is \<open>line.split("\t", 1)\<close> for a line that contains a tab.
  \<open>parse_rating\<close> is the part of \<open>consider_entry\<close> that tries to read
  \<open>RATING<TAB>entry\<close>; it returns the pair \<open>(rating, entry)\<close>.  \<open>keep_best\<close> is the
  deduplication on the dictionary \<open>best_by_cleaned\<close>, an association list in insertion
  order whose values are \<open>None\<close> (unrated) or a rating.  \<open>consider_entry\<close> returns the
  updated \<open>best_by_cleaned\<close>, and \<open>fold_err\<close> is the loop \<open>for raw in f\<close>.
\<close>

definition strip :: "ucd \<Rightarrow> pystr \<Rightarrow> pystr" where
  "strip U s = rev (dropWhile (is_space U) (rev (dropWhile (is_space U) s)))"

definition isdigit :: "ucd \<Rightarrow> pystr \<Rightarrow> bool" where
  "isdigit U s \<longleftrightarrow> s \<noteq> [] \<and> list_all (is_digit U) s"

fun decimal_digits :: "ucd \<Rightarrow> pystr \<Rightarrow> nat list option" where
  "decimal_digits U [] = Some []"
| "decimal_digits U (c # cs) =
     (case decimal_value U c of None \<Rightarrow> None
      | Some d \<Rightarrow> (case decimal_digits U cs of None \<Rightarrow> None | Some ds \<Rightarrow> Some (d # ds)))"

definition py_int :: "ucd \<Rightarrow> pystr \<Rightarrow> py_error + int" where
  "py_int U s =
     (if (case max_str_digits U of Some l \<Rightarrow> length s > l | None \<Rightarrow> False) then Inl ValueError
      else (case decimal_digits U s of
              None \<Rightarrow> Inl ValueError
            | Some ds \<Rightarrow> if ds = [] then Inl ValueError
                        else Inr (int (foldl (\<lambda>a d. 10 * a + d) 0 ds))))"

definition split_tab :: "pystr \<Rightarrow> pystr \<times> pystr" where
  "split_tab line = (takeWhile (\<lambda>c. c \<noteq> 9) line, drop 1 (dropWhile (\<lambda>c. c \<noteq> 9) line))"

type_synonym best_map = "(pystr \<times> int option) list"

definition parse_rating :: "ucd \<Rightarrow> pystr \<Rightarrow> py_error + (int option \<times> pystr)" where
  "parse_rating U line =
     (if 9 \<in> set line then
        (let (left, right) = split_tab line; left_stripped = strip U left in
         if isdigit U left_stripped then
           bind_err (py_int U left_stripped) (\<lambda>r.
             if 1 \<le> r \<and> r \<le> 10 then Inr (Some r, right) else Inr (None, line))
         else Inr (None, line))
      else Inr (None, line))"

definition keep_best :: "pystr \<Rightarrow> int option \<Rightarrow> best_map \<Rightarrow> best_map" where
  "keep_best cleaned rating best =
     (case map_of best cleaned of
        None \<Rightarrow> AList.update cleaned rating best
      | Some prev \<Rightarrow>
          (case prev of
             None \<Rightarrow> (if rating \<noteq> None then AList.update cleaned rating best else best)
           | Some pv \<Rightarrow>
               (case rating of
                  Some rv \<Rightarrow> if rv > pv then AList.update cleaned rating best else best
                | None \<Rightarrow> best)))"

definition consider_entry :: "ucd \<Rightarrow> int \<Rightarrow> pystr \<Rightarrow> best_map \<Rightarrow> py_error + best_map" where
  "consider_entry U min_rating raw best =
     (let line = strip U raw in
      if line = [] then Inr best
      else
        bind_err (parse_rating U line) (\<lambda>(rating, entry).
          let cleaned = clean_phrase U entry in
          if cleaned = [] then Inr best
          else if length cleaned < 4 \<or> length cleaned > 7 then Inr best
          else if \<not> (case rating of None \<Rightarrow> True | Some r \<Rightarrow> r \<ge> min_rating) then Inr best
          else Inr (keep_best cleaned rating best)))"

fun fold_err :: "('a \<Rightarrow> 's \<Rightarrow> 'e + 's) \<Rightarrow> 'a list \<Rightarrow> 's \<Rightarrow> 'e + 's" where
  "fold_err f [] s = Inr s"
| "fold_err f (x # xs) s = bind_err (f x s) (fold_err f xs)"

definition fallback_words :: "pystr list" where
  "fallback_words = map str [''TITLE'', ''TENET'', ''LEVEL'', ''LILITH'', ''DENIES'', ''GUSTY'',
     ''GUTSY'', ''TATTY'', ''ANYHOW'', ''ANYHOO'', ''WANT'', ''WANTS'']"

definition build_by_len :: "best_map \<Rightarrow> (nat \<times> pystr list) list" where
  "build_by_len best = fold (\<lambda>w. dict_append (length w) w) (map fst best) []"

definition fallback_best :: "ucd \<Rightarrow> best_map" where
  "fallback_best U =
     fold (\<lambda>w best. let c = clean_phrase U w in
             if 4 \<le> length c \<and> length c \<le> 7 then AList.update c None best else best)
       fallback_words []"

text \<open>
  \<open>fs path\<close> is the list of lines of the file at \<open>path\<close>, or \<open>None\<close> when \<open>open\<close> raises
  \<open>FileNotFoundError\<close>.  The counters of \<open>load_dictionary\<close> only feed the printed summary
  and are left out.
\<close>

definition load_dictionary ::
  "ucd \<Rightarrow> (pystr \<Rightarrow> pystr list option) \<Rightarrow> pystr \<Rightarrow> int \<Rightarrow> py_error + (nat \<times> pystr list) list" where
  "load_dictionary U fs path min_rating =
     (case fs path of
        Some lines \<Rightarrow>
          bind_err (fold_err (consider_entry U min_rating) lines []) (\<lambda>best. Inr (build_by_len best))
      | None \<Rightarrow> Inr (build_by_len (fallback_best U)))"

text \<open>
  What C10 assumes of the Unicode data, and what holds of the real data: an ASCII digit is
  a digit for \<open>str.isdigit\<close>, has its decimal value for \<open>int\<close>, is not whitespace and is
  dropped by \<open>clean_phrase\<close>; so are the tab and every whitespace character.  \<open>decimal n\<close>
  is the number that the ASCII digit string \<open>n\<close> denotes.
\<close>

definition reads_digits :: "ucd \<Rightarrow> bool" where
  "reads_digits U \<longleftrightarrow>
     (\<forall>c. 48 \<le> c \<and> c \<le> 57 \<longrightarrow>
        is_digit U c \<and> decimal_value U c = Some (c - 48) \<and> \<not> is_space U c \<and>
        clean_phrase U [c] = []) \<and>
     clean_phrase U [9] = [] \<and>
     (\<forall>c. is_space U c \<longrightarrow> clean_phrase U [c] = [])"

definition decimal :: "pystr \<Rightarrow> nat" where
  "decimal n = foldl (\<lambda>a d. 10 * a + d) 0 (map (\<lambda>c. c - 48) n)"

text \<open>
  A sample of the Unicode data: ASCII (letters uppercase to themselves or to their capital,
  nothing decomposes, no combining marks), U+00E9 (e with acute, decomposing to e and
  U+0301, class 230) and U+FB01 (the ligature fi, decomposing to f and i).  Elsewhere the
  sample leaves a code point as it is.
\<close>

definition ucd_sample :: ucd where
  "ucd_sample = \<lparr>
     decomp = (\<lambda>c. if c = 64257 then [102, 105] else if c = 233 then [101, 769] else [c]),
     ccc = (\<lambda>c. if c = 769 then 230 else 0),
     upper_of = (\<lambda>c. if 97 \<le> c \<and> c \<le> 122 then [c - 32] else [c]),
     is_space = (\<lambda>c. c \<in> {9, 10, 11, 12, 13, 28, 29, 30, 31, 32}),
     is_digit = (\<lambda>c. 48 \<le> c \<and> c \<le> 57),
     decimal_value = (\<lambda>c. if 48 \<le> c \<and> c \<le> 57 then Some (c - 48) else None),
     max_str_digits = Some 4300\<rparr>"

section \<open>Placing and unplacing\<close>

lemma bind_err_Inr [simp]: "bind_err (Inr v) f = f v"
  by (simp add: bind_err_def)

lemma bind_err_Inl [simp]: "bind_err (Inl e) f = Inl e"
  by (simp add: bind_err_def)

lemma bind_err_eq_Inr: "bind_err m f = Inr r \<longleftrightarrow> (\<exists>v. m = Inr v \<and> f v = Inr r)"
  by (cases m) auto

lemma counter_get_add [simp]:
  "counter_get (counter_add k n d) k' = (if k' = k then counter_get d k + n else counter_get d k')"
  by (simp add: counter_get_def counter_add_def update_conv')

lemma keys_counter_add [simp]: "fst ` set (counter_add k n d) = insert k (fst ` set d)"
  by (simp add: counter_add_def dom_update)

lemma distinct_counter_add [simp]:
  "distinct (map fst d) \<Longrightarrow> distinct (map fst (counter_add k n d))"
  by (simp add: counter_add_def distinct_update)

lemma str_index_Inr [simp]: "k < length w \<Longrightarrow> str_index w k = Inr (w ! k)"
  by (simp add: str_index_def)

lemma str_index_eq_Inr: "str_index w k = Inr a \<longleftrightarrow> k < length w \<and> a = w ! k"
  by (auto simp: str_index_def)

lemma newly_claimed_cong: "(\<And>c. c \<in> set cs \<Longrightarrow> u c = u' c) \<Longrightarrow> newly_claimed u word k cs ch = newly_claimed u' word k cs ch"
  by (induction cs arbitrary: k) auto

lemma place_cells_Cons:
  "place_cells word k (c # cs) st =
     (if k < length word then place_cells word (Suc k) cs (place_cell c (word ! k) st) else Inl IndexError)"
  by (simp add: place_cell_def str_index_def Let_def)

declare place_cells.simps(2) [simp del]

lemma place_cells_closed:
  assumes "distinct cs" "k + length cs \<le> length word"
  shows "\<exists>st'. place_cells word k cs st = Inr st' \<and> frame_eq st st' \<and>
    (\<forall>c. counter_get (cell_usage st') c = counter_get (cell_usage st) c + (if c \<in> set cs then 1 else 0)) \<and>
    (\<forall>ch. counter_get (budget st') ch = counter_get (budget st) ch - newly_claimed (counter_get (cell_usage st)) word k cs ch) \<and>
    (\<forall>c. \<not> (c \<in> set cs \<and> counter_get (cell_usage st) c = 0) \<longrightarrow> map_of (cell_letter st') c = map_of (cell_letter st) c) \<and>
    (\<forall>c \<in> set cs. counter_get (cell_usage st) c = 0 \<longrightarrow> c \<in> fst ` set (cell_letter st'))"
  using assms
proof (induction cs arbitrary: k st)
  case Nil
  then show ?case by (simp add: frame_eq_def)
next
  case (Cons c cs)
  let ?s = "place_cell c (word ! k) st"
  have k: "k < length word" using Cons.prems by simp
  from Cons.IH[of "Suc k" ?s] Cons.prems
  obtain st' where st': "place_cells word (Suc k) cs ?s = Inr st'" "frame_eq ?s st'"
    "\<forall>c'. counter_get (cell_usage st') c' = counter_get (cell_usage ?s) c' + (if c' \<in> set cs then 1 else 0)"
    "\<forall>ch. counter_get (budget st') ch = counter_get (budget ?s) ch - newly_claimed (counter_get (cell_usage ?s)) word (Suc k) cs ch"
    "\<forall>c'. \<not> (c' \<in> set cs \<and> counter_get (cell_usage ?s) c' = 0) \<longrightarrow> map_of (cell_letter st') c' = map_of (cell_letter ?s) c'"
    "\<forall>c' \<in> set cs. counter_get (cell_usage ?s) c' = 0 \<longrightarrow> c' \<in> fst ` set (cell_letter st')"
    by auto
  have us: "\<And>c'. counter_get (cell_usage ?s) c' = counter_get (cell_usage st) c' + (if c' = c then 1 else 0)"
    by (simp add: place_cell_def)
  have ch_eq: "\<And>ch. newly_claimed (counter_get (cell_usage ?s)) word (Suc k) cs ch = newly_claimed (counter_get (cell_usage st)) word (Suc k) cs ch"
    using Cons.prems(1) by (intro newly_claimed_cong) (auto simp: us)
  have bs: "\<And>ch. counter_get (budget ?s) ch = counter_get (budget st) ch - (if counter_get (cell_usage st) c = 0 \<and> word ! k = ch then 1 else 0)"
    by (simp add: place_cell_def)
  have cl: "\<And>c'. map_of (cell_letter ?s) c' = (if c' = c \<and> counter_get (cell_usage st) c = 0 then Some (word ! k) else map_of (cell_letter st) c')"
    by (simp add: place_cell_def update_conv')
  have fr: "frame_eq st ?s" by (simp add: frame_eq_def place_cell_def)
  show ?case
  proof (intro exI[of _ st'] conjI allI ballI impI)
    show "place_cells word k (c # cs) st = Inr st'" using st'(1) k by (simp add: place_cells_Cons)
    show "frame_eq st st'" using fr st'(2) by (simp add: frame_eq_def)
    show "counter_get (cell_usage st') c' = counter_get (cell_usage st) c' + (if c' \<in> set (c # cs) then 1 else 0)" for c'
      using st'(3)[rule_format, of c'] us[of c'] Cons.prems(1) by auto
    show "counter_get (budget st') ch = counter_get (budget st) ch - newly_claimed (counter_get (cell_usage st)) word k (c # cs) ch" for ch
      using st'(4)[rule_format, of ch] bs[of ch] ch_eq[of ch] by simp
    show "map_of (cell_letter st') c' = map_of (cell_letter st) c'"
      if "\<not> (c' \<in> set (c # cs) \<and> counter_get (cell_usage st) c' = 0)" for c'
      using that st'(5)[rule_format, of c'] cl[of c'] us[of c'] Cons.prems(1) by (auto split: if_splits)
    show "c' \<in> fst ` set (cell_letter st')" if "c' \<in> set (c # cs)" "counter_get (cell_usage st) c' = 0" for c'
    proof (cases "c' = c")
      case True
      then have "c \<notin> set cs" using Cons.prems(1) by simp
      then have "map_of (cell_letter st') c = map_of (cell_letter ?s) c" using st'(5)[rule_format, of c] by simp
      then have "map_of (cell_letter st') c = Some (word ! k)" using cl[of c] that True by simp
      then show ?thesis using True by (metis domI dom_map_of_conv_image_fst)
    next
      case False
      then show ?thesis using that st'(6) us[of c'] by auto
    qed
  qed
qed

lemma unplace_cells_Cons:
  "unplace_cells word k (c # cs) st =
     (if k < length word then
        (if counter_get (cell_usage st) c = 1 \<and> c \<notin> fst ` set (cell_letter st) then Inl KeyError
         else unplace_cells word (Suc k) cs (unplace_cell c (word ! k) st))
      else Inl IndexError)"
  by (simp add: unplace_cell_def str_index_def Let_def)

declare unplace_cells.simps(2) [simp del]

lemma unplace_cells_closed:
  assumes "distinct cs" "k + length cs \<le> length word"
    "\<forall>c \<in> set cs. counter_get (cell_usage st) c = 1 \<longrightarrow> c \<in> fst ` set (cell_letter st)"
  shows "\<exists>st'. unplace_cells word k cs st = Inr st' \<and> frame_eq st st' \<and>
    (\<forall>c. counter_get (cell_usage st') c = counter_get (cell_usage st) c - (if c \<in> set cs then 1 else 0)) \<and>
    (\<forall>ch. counter_get (budget st') ch = counter_get (budget st) ch + newly_claimed (\<lambda>c. counter_get (cell_usage st) c - 1) word k cs ch) \<and>
    (\<forall>c. map_of (cell_letter st') c = (if c \<in> set cs \<and> counter_get (cell_usage st) c = 1 then None else map_of (cell_letter st) c))"
  using assms
proof (induction cs arbitrary: k st)
  case Nil
  then show ?case by (simp add: frame_eq_def)
next
  case (Cons c cs)
  let ?s = "unplace_cell c (word ! k) st"
  have k: "k < length word" using Cons.prems by simp
  have cnot: "c \<notin> set cs" using Cons.prems(1) by simp
  have us: "\<And>c'. counter_get (cell_usage ?s) c' = counter_get (cell_usage st) c' - (if c' = c then 1 else 0)"
    by (simp add: unplace_cell_def Let_def)
  have bs: "\<And>ch. counter_get (budget ?s) ch = counter_get (budget st) ch + (if counter_get (cell_usage st) c - 1 = 0 \<and> word ! k = ch then 1 else 0)"
    by (simp add: unplace_cell_def Let_def)
  have cl: "\<And>c'. map_of (cell_letter ?s) c' = (if c' = c \<and> counter_get (cell_usage st) c = 1 then None else map_of (cell_letter st) c')"
    by (auto simp add: unplace_cell_def Let_def delete_conv')
  have fr: "frame_eq st ?s" by (simp add: frame_eq_def unplace_cell_def Let_def)
  have pre: "\<forall>c' \<in> set cs. counter_get (cell_usage ?s) c' = 1 \<longrightarrow> c' \<in> fst ` set (cell_letter ?s)"
  proof (intro ballI impI)
    fix c' assume a: "c' \<in> set cs" "counter_get (cell_usage ?s) c' = 1"
    then have ne: "c' \<noteq> c" using cnot by auto
    then have "counter_get (cell_usage st) c' = 1" using a us[of c'] by simp
    then have "c' \<in> fst ` set (cell_letter st)" using Cons.prems(3) a by simp
    then have "map_of (cell_letter st) c' \<noteq> None" by (simp add: map_of_eq_None_iff)
    then have "map_of (cell_letter ?s) c' \<noteq> None" using cl[of c'] ne by simp
    then show "c' \<in> fst ` set (cell_letter ?s)" by (simp add: map_of_eq_None_iff)
  qed
  from Cons.IH[of "Suc k" ?s] Cons.prems pre
  obtain st' where st': "unplace_cells word (Suc k) cs ?s = Inr st'" "frame_eq ?s st'"
    "\<forall>c'. counter_get (cell_usage st') c' = counter_get (cell_usage ?s) c' - (if c' \<in> set cs then 1 else 0)"
    "\<forall>ch. counter_get (budget st') ch = counter_get (budget ?s) ch + newly_claimed (\<lambda>c. counter_get (cell_usage ?s) c - 1) word (Suc k) cs ch"
    "\<forall>c'. map_of (cell_letter st') c' = (if c' \<in> set cs \<and> counter_get (cell_usage ?s) c' = 1 then None else map_of (cell_letter ?s) c')"
    by auto
  have ch_eq: "\<And>ch. newly_claimed (\<lambda>c. counter_get (cell_usage ?s) c - 1) word (Suc k) cs ch = newly_claimed (\<lambda>c. counter_get (cell_usage st) c - 1) word (Suc k) cs ch"
    using cnot by (intro newly_claimed_cong) (auto simp: us)
  show ?case
  proof (intro exI[of _ st'] conjI allI)
    show "unplace_cells word k (c # cs) st = Inr st'" using st'(1) k Cons.prems(3)
      by (simp add: unplace_cells_Cons)
    show "frame_eq st st'" using fr st'(2) by (simp add: frame_eq_def)
    show "counter_get (cell_usage st') c' = counter_get (cell_usage st) c' - (if c' \<in> set (c # cs) then 1 else 0)" for c'
      using st'(3)[rule_format, of c'] us[of c'] cnot by auto
    show "counter_get (budget st') ch = counter_get (budget st) ch + newly_claimed (\<lambda>c. counter_get (cell_usage st) c - 1) word k (c # cs) ch" for ch
      using st'(4)[rule_format, of ch] bs[of ch] ch_eq[of ch] by simp
    show "map_of (cell_letter st') c' = (if c' \<in> set (c # cs) \<and> counter_get (cell_usage st) c' = 1 then None else map_of (cell_letter st) c')" for c'
      using st'(5)[rule_format, of c'] cl[of c'] us[of c'] cnot by auto
  qed
qed

lemma delete_update_fresh: "k \<notin> fst ` set al \<Longrightarrow> AList.delete k (AList.update k v al) = al"
  by (induction al) auto

lemma place_unplace_counts:
  assumes s: "dict_get (by_id E) i = Inr s"
    and dist: "distinct (cells s)"
    and len: "length (cells s) \<le> length word"
    and fresh: "i \<notin> fst ` set (sol st)"
    and cons: "\<forall>c \<in> set (cells s). counter_get (cell_usage st) c = 0 \<longrightarrow> c \<notin> fst ` set (cell_letter st)"
  shows "\<exists>st1 st2. place E i word st = Inr st1 \<and> unplace E i word st1 = Inr st2 \<and>
     (\<forall>ch. counter_get (budget st1) ch =
            counter_get (budget st) ch - newly_claimed (counter_get (cell_usage st)) word 0 (cells s) ch) \<and>
     (\<forall>ch. counter_get (budget st2) ch = counter_get (budget st) ch) \<and>
     map_of (cell_letter st2) = map_of (cell_letter st) \<and>
     (\<forall>c. counter_get (cell_usage st2) c = counter_get (cell_usage st) c) \<and>
     sol st2 = sol st \<and> solutions st2 = solutions st \<and>
     seen_signatures st2 = seen_signatures st \<and> checks st2 = checks st"
proof -
  from place_cells_closed[OF dist, of 0 word st] len
  obtain p where p: "place_cells word 0 (cells s) st = Inr p" "frame_eq st p"
    "\<forall>c. counter_get (cell_usage p) c = counter_get (cell_usage st) c + (if c \<in> set (cells s) then 1 else 0)"
    "\<forall>ch. counter_get (budget p) ch = counter_get (budget st) ch - newly_claimed (counter_get (cell_usage st)) word 0 (cells s) ch"
    "\<forall>c. \<not> (c \<in> set (cells s) \<and> counter_get (cell_usage st) c = 0) \<longrightarrow> map_of (cell_letter p) c = map_of (cell_letter st) c"
    "\<forall>c \<in> set (cells s). counter_get (cell_usage st) c = 0 \<longrightarrow> c \<in> fst ` set (cell_letter p)"
    by auto
  define st1 where "st1 = p\<lparr>sol := AList.update i word (sol p)\<rparr>"
  have pl: "place E i word st = Inr st1"
    using s p(1) by (simp add: place_def st1_def)
  have pre: "\<forall>c \<in> set (cells s). counter_get (cell_usage st1) c = 1 \<longrightarrow> c \<in> fst ` set (cell_letter st1)"
  proof (intro ballI impI)
    fix c assume c: "c \<in> set (cells s)" "counter_get (cell_usage st1) c = 1"
    then have "counter_get (cell_usage st) c = 0" using p(3)[rule_format, of c] by (simp add: st1_def)
    then show "c \<in> fst ` set (cell_letter st1)" using p(6) c(1) by (simp add: st1_def)
  qed
  from unplace_cells_closed[OF dist _ pre, of 0 word] len
  obtain q where q: "unplace_cells word 0 (cells s) st1 = Inr q" "frame_eq st1 q"
    "\<forall>c. counter_get (cell_usage q) c = counter_get (cell_usage st1) c - (if c \<in> set (cells s) then 1 else 0)"
    "\<forall>ch. counter_get (budget q) ch = counter_get (budget st1) ch + newly_claimed (\<lambda>c. counter_get (cell_usage st1) c - 1) word 0 (cells s) ch"
    "\<forall>c. map_of (cell_letter q) c = (if c \<in> set (cells s) \<and> counter_get (cell_usage st1) c = 1 then None else map_of (cell_letter st1) c)"
    by auto
  define st2 where "st2 = q\<lparr>sol := AList.delete i (sol q)\<rparr>"
  have solq: "sol q = AList.update i word (sol st)"
    using q(2) p(2) by (simp add: frame_eq_def st1_def)
  have unpl: "unplace E i word st1 = Inr st2"
    using s q(1) solq by (simp add: unplace_def st2_def dom_update)
  have ch_eq: "newly_claimed (\<lambda>c. counter_get (cell_usage st1) c - 1) word 0 (cells s) ch
      = newly_claimed (counter_get (cell_usage st)) word 0 (cells s) ch" for ch
  proof (rule newly_claimed_cong)
    fix c assume "c \<in> set (cells s)"
    then show "counter_get (cell_usage st1) c - 1 = counter_get (cell_usage st) c"
      using p(3)[rule_format, of c] by (simp add: st1_def)
  qed
  have b2: "counter_get (budget st2) ch = counter_get (budget st) ch" for ch
    using q(4)[rule_format, of ch] p(4)[rule_format, of ch] ch_eq[of ch] by (simp add: st2_def st1_def)
  have u2: "counter_get (cell_usage st2) c = counter_get (cell_usage st) c" for c
    using q(3)[rule_format, of c] p(3)[rule_format, of c] by (simp add: st2_def st1_def)
  have cl2: "map_of (cell_letter st2) c = map_of (cell_letter st) c" for c
  proof (cases "c \<in> set (cells s) \<and> counter_get (cell_usage st) c = 0")
    case True
    then have "counter_get (cell_usage st1) c = 1" using p(3)[rule_format, of c] by (simp add: st1_def)
    then have "map_of (cell_letter st2) c = None" using q(5)[rule_format, of c] True by (simp add: st2_def)
    moreover have "map_of (cell_letter st) c = None" using cons True by (simp add: map_of_eq_None_iff)
    ultimately show ?thesis by simp
  next
    case False
    then have "\<not> (c \<in> set (cells s) \<and> counter_get (cell_usage st1) c = 1)"
      using p(3)[rule_format, of c] by (auto simp add: st1_def)
    then have "map_of (cell_letter st2) c = map_of (cell_letter st1) c"
      using q(5)[rule_format, of c] by (auto simp add: st2_def)
    also have "\<dots> = map_of (cell_letter st) c" using p(5)[rule_format, of c] False by (simp add: st1_def)
    finally show ?thesis .
  qed
  have s2: "sol st2 = sol st" using solq fresh by (simp add: st2_def delete_update_fresh)
  have fr: "solutions st2 = solutions st \<and> seen_signatures st2 = seen_signatures st \<and> checks st2 = checks st"
    using q(2) p(2) by (simp add: frame_eq_def st1_def st2_def)
  have b1: "counter_get (budget st1) ch =
            counter_get (budget st) ch - newly_claimed (counter_get (cell_usage st)) word 0 (cells s) ch" for ch
    using p(4)[rule_format, of ch] by (simp add: st1_def)
  show ?thesis
    using pl unpl b1 b2 u2 cl2 s2 fr by (intro exI[of _ st1] exI[of _ st2]) (auto simp: fun_eq_iff)
qed

section \<open>The invariant of the search\<close>

lemma inv0I:
  assumes "distinct (map fst (cell_letter st))" "distinct (map fst (budget st))"
    "\<And>c. counter_get (cell_usage st) c = int (covering P c)"
    "\<And>c. c \<in> fst ` set (cell_letter st) \<Longrightarrow> 0 < covering P c"
    "\<And>p c l. p \<in># P \<Longrightarrow> (c, l) \<in> set p \<Longrightarrow> map_of (cell_letter st) c = Some l"
    "\<And>ch. counter_get (budget st) ch + int (letter_count (cell_letter st) ch)
             = int (count_list phrase ch)"
  shows "inv0 phrase P st"
  unfolding inv0_def using assms by blast

lemma inv0D:
  assumes "inv0 phrase P st"
  shows "distinct (map fst (cell_letter st))" "distinct (map fst (budget st))"
    "counter_get (cell_usage st) c = int (covering P c)"
    "c \<in> fst ` set (cell_letter st) \<Longrightarrow> 0 < covering P c"
    "p \<in># P \<Longrightarrow> (c, l) \<in> set p \<Longrightarrow> map_of (cell_letter st) c = Some l"
    "counter_get (budget st) ch + int (letter_count (cell_letter st) ch)
             = int (count_list phrase ch)"
  using assms unfolding inv0_def by blast+

lemma covering_add: "covering (add_mset p P) c = covering P c + (if c \<in> fst ` set p then 1 else 0)"
  by (simp add: covering_def)

lemma covering_pos_iff: "0 < covering P c \<longleftrightarrow> (\<exists>p. p \<in># P \<and> c \<in> fst ` set p)"
  unfolding covering_def nonempty_has_size[symmetric] by auto

lemma letter_count_update_fresh:
  "c \<notin> fst ` set cl \<Longrightarrow>
   letter_count (AList.update c ch cl) ch' = letter_count cl ch' + (if ch' = ch then 1 else 0)"
  by (induction cl) (auto simp: letter_count_def)

lemma letter_count_delete:
  "distinct (map fst cl) \<Longrightarrow> map_of cl c = Some ch \<Longrightarrow>
   letter_count cl ch' = letter_count (AList.delete c cl) ch' + (if ch' = ch then 1 else 0)"
proof (induction cl)
  case Nil
  then show ?case by simp
next
  case (Cons a cl)
  show ?case
  proof (cases "fst a = c")
    case True
    then have "c \<notin> fst ` set cl" using Cons.prems(1) by auto
    then have "AList.delete c cl = cl" by (simp add: delete_id)
    moreover have "snd a = ch" using Cons.prems(2) True by (cases a) auto
    ultimately show ?thesis using True by (cases a) (auto simp: letter_count_def)
  next
    case False
    then have "map_of cl c = Some ch" using Cons.prems(2) by (cases a) auto
    with Cons.IH Cons.prems(1) have "letter_count cl ch' = letter_count (AList.delete c cl) ch' + (if ch' = ch then 1 else 0)" by simp
    then show ?thesis using False by (cases a) (auto simp: letter_count_def)
  qed
qed

lemma place_cell_inv0:
  assumes I: "inv0 phrase (add_mset cur P) st" and nc: "c \<notin> fst ` set cur"
    and ok: "\<And>l. map_of (cell_letter st) c = Some l \<Longrightarrow> l = ch"
  shows "inv0 phrase (add_mset (cur @ [(c, ch)]) P) (place_cell c ch st)"
proof -
  note D = inv0D[OF I]
  have cov: "covering (add_mset (cur @ [(c, ch)]) P) c' = covering (add_mset cur P) c' + (if c' = c then 1 else 0)" for c'
    using nc by (auto simp: covering_add)
  show ?thesis
  proof (cases "counter_get (cell_usage st) c = 0")
    case True
    have cov0: "covering (add_mset cur P) c = 0" using D(3)[of c] True by simp
    have uncovered: "\<And>p. p \<in># add_mset cur P \<Longrightarrow> c \<notin> fst ` set p"
      using cov0 covering_pos_iff[of "add_mset cur P" c] by auto
    have notkey: "c \<notin> fst ` set (cell_letter st)" using D(4)[of c] cov0 by auto
    have st': "place_cell c ch st = st\<lparr>cell_letter := AList.update c ch (cell_letter st),
        budget := counter_add ch (- 1) (budget st), cell_usage := counter_add c 1 (cell_usage st)\<rparr>"
      using True by (simp add: place_cell_def)
    show ?thesis unfolding st'
    proof (rule inv0I)
      show "distinct (map fst (cell_letter (st\<lparr>cell_letter := AList.update c ch (cell_letter st),
        budget := counter_add ch (- 1) (budget st), cell_usage := counter_add c 1 (cell_usage st)\<rparr>)))"
        using D(1) by (simp add: distinct_update)
      show "distinct (map fst (budget (st\<lparr>cell_letter := AList.update c ch (cell_letter st),
        budget := counter_add ch (- 1) (budget st), cell_usage := counter_add c 1 (cell_usage st)\<rparr>)))"
        using D(2) by simp
      show "counter_get (cell_usage (st\<lparr>cell_letter := AList.update c ch (cell_letter st),
        budget := counter_add ch (- 1) (budget st), cell_usage := counter_add c 1 (cell_usage st)\<rparr>)) c'
          = int (covering (add_mset (cur @ [(c, ch)]) P) c')" for c'
        using D(3)[of c'] cov[of c'] by auto
      show "0 < covering (add_mset (cur @ [(c, ch)]) P) c'"
        if "c' \<in> fst ` set (cell_letter (st\<lparr>cell_letter := AList.update c ch (cell_letter st),
        budget := counter_add ch (- 1) (budget st), cell_usage := counter_add c 1 (cell_usage st)\<rparr>))" for c'
        using that D(4)[of c'] cov[of c'] by (auto simp: dom_update)
      show "map_of (cell_letter (st\<lparr>cell_letter := AList.update c ch (cell_letter st),
        budget := counter_add ch (- 1) (budget st), cell_usage := counter_add c 1 (cell_usage st)\<rparr>)) c' = Some l"
        if "p \<in># add_mset (cur @ [(c, ch)]) P" "(c', l) \<in> set p" for p c' l
      proof (cases "c' = c")
        case True
        have "p = cur @ [(c, ch)]"
        proof (rule ccontr)
          assume "p \<noteq> cur @ [(c, ch)]"
          then have "p \<in># add_mset cur P" using that(1) by auto
          moreover have "c \<in> fst ` set p" using that(2) True by force
          ultimately show False using uncovered by blast
        qed
        then have "l = ch" using that(2) True nc by force
        then show ?thesis using True by (simp add: update_conv')
      next
        case False
        have "\<exists>q. q \<in># add_mset cur P \<and> (c', l) \<in> set q"
          using that False by auto
        then have "map_of (cell_letter st) c' = Some l" using D(5) by blast
        then show ?thesis using False by (simp add: update_conv')
      qed
      show "counter_get (budget (st\<lparr>cell_letter := AList.update c ch (cell_letter st),
        budget := counter_add ch (- 1) (budget st), cell_usage := counter_add c 1 (cell_usage st)\<rparr>)) ch'
         + int (letter_count (cell_letter (st\<lparr>cell_letter := AList.update c ch (cell_letter st),
        budget := counter_add ch (- 1) (budget st), cell_usage := counter_add c 1 (cell_usage st)\<rparr>)) ch')
         = int (count_list phrase ch')" for ch'
        using D(6)[of ch'] notkey by (auto simp add: letter_count_update_fresh)
    qed
  next
    case False
    have covpos: "0 < covering (add_mset cur P) c" using D(3)[of c] False by simp
    then obtain q where q: "q \<in># add_mset cur P" "c \<in> fst ` set q"
      using covering_pos_iff[of "add_mset cur P" c] by auto
    then obtain l where l: "(c, l) \<in> set q" by force
    have cl_c: "map_of (cell_letter st) c = Some ch"
      using D(5)[OF q(1) l] ok by auto
    have st': "place_cell c ch st = st\<lparr>cell_usage := counter_add c 1 (cell_usage st)\<rparr>"
      using False by (simp add: place_cell_def)
    show ?thesis unfolding st'
    proof (rule inv0I)
      show "distinct (map fst (cell_letter (st\<lparr>cell_usage := counter_add c 1 (cell_usage st)\<rparr>)))"
        using D(1) by simp
      show "distinct (map fst (budget (st\<lparr>cell_usage := counter_add c 1 (cell_usage st)\<rparr>)))"
        using D(2) by simp
      show "counter_get (cell_usage (st\<lparr>cell_usage := counter_add c 1 (cell_usage st)\<rparr>)) c'
          = int (covering (add_mset (cur @ [(c, ch)]) P) c')" for c'
        using D(3)[of c'] cov[of c'] by auto
      show "0 < covering (add_mset (cur @ [(c, ch)]) P) c'"
        if "c' \<in> fst ` set (cell_letter (st\<lparr>cell_usage := counter_add c 1 (cell_usage st)\<rparr>))" for c'
        using that D(4)[of c'] cov[of c'] by auto
      show "map_of (cell_letter (st\<lparr>cell_usage := counter_add c 1 (cell_usage st)\<rparr>)) c' = Some l'"
        if "p \<in># add_mset (cur @ [(c, ch)]) P" "(c', l') \<in> set p" for p c' l'
      proof (cases "(c', l') = (c, ch)")
        case True
        then show ?thesis using cl_c by simp
      next
        case False
        have "\<exists>q. q \<in># add_mset cur P \<and> (c', l') \<in> set q"
          using that False by auto
        then have "map_of (cell_letter st) c' = Some l'" using D(5) by blast
        then show ?thesis by simp
      qed
      show "counter_get (budget (st\<lparr>cell_usage := counter_add c 1 (cell_usage st)\<rparr>)) ch'
         + int (letter_count (cell_letter (st\<lparr>cell_usage := counter_add c 1 (cell_usage st)\<rparr>)) ch')
         = int (count_list phrase ch')" for ch'
        using D(6)[of ch'] by simp
    qed
  qed
qed

lemma unplace_cell_inv0:
  assumes I: "inv0 phrase (add_mset ((c, ch) # cur) P) st" and nc: "c \<notin> fst ` set cur"
  shows "c \<in> fst ` set (cell_letter st)"
    and "inv0 phrase (add_mset cur P) (unplace_cell c ch st)"
    and "counter_get (budget st) ch' \<le> counter_get (budget (unplace_cell c ch st)) ch'"
proof -
  note D = inv0D[OF I]
  have cov: "covering (add_mset ((c, ch) # cur) P) c' = covering (add_mset cur P) c' + (if c' = c then 1 else 0)" for c'
    using nc by (auto simp: covering_add)
  have cl_c: "map_of (cell_letter st) c = Some ch"
    using D(5)[of "(c, ch) # cur" c ch] by simp
  then show key: "c \<in> fst ` set (cell_letter st)"
    by (metis domI dom_map_of_conv_image_fst)
  have old: "\<And>p c' l. p \<in># add_mset cur P \<Longrightarrow> (c', l) \<in> set p \<Longrightarrow> map_of (cell_letter st) c' = Some l"
  proof -
    fix p c' l assume a: "p \<in># add_mset cur P" "(c', l) \<in> set p"
    then have "\<exists>q. q \<in># add_mset ((c, ch) # cur) P \<and> (c', l) \<in> set q" by auto
    then show "map_of (cell_letter st) c' = Some l" using D(5) by blast
  qed
  show "counter_get (budget st) ch' \<le> counter_get (budget (unplace_cell c ch st)) ch'"
    by (simp add: unplace_cell_def Let_def)
  show "inv0 phrase (add_mset cur P) (unplace_cell c ch st)"
  proof (cases "counter_get (cell_usage st) c = 1")
    case True
    have cov0: "covering (add_mset cur P) c = 0" using D(3)[of c] cov[of c] True by simp
    have uncovered: "\<And>p. p \<in># add_mset cur P \<Longrightarrow> c \<notin> fst ` set p"
      using cov0 covering_pos_iff[of "add_mset cur P" c] by auto
    define st' where "st' = st\<lparr>cell_usage := counter_add c (- 1) (cell_usage st),
        cell_letter := AList.delete c (cell_letter st), budget := counter_add ch 1 (budget st)\<rparr>"
    have eq: "unplace_cell c ch st = st'"
      using True by (simp add: unplace_cell_def Let_def st'_def)
    have f: "cell_letter st' = AList.delete c (cell_letter st)" "budget st' = counter_add ch 1 (budget st)"
      "cell_usage st' = counter_add c (- 1) (cell_usage st)" by (simp_all add: st'_def)
    show ?thesis unfolding eq
    proof (rule inv0I)
      show "distinct (map fst (cell_letter st'))" using D(1) by (simp add: f distinct_delete)
      show "distinct (map fst (budget st'))" using D(2) by (simp add: f)
      show "counter_get (cell_usage st') c' = int (covering (add_mset cur P) c')" for c'
        using D(3)[of c'] cov[of c'] by (auto simp: f)
      show "0 < covering (add_mset cur P) c'" if "c' \<in> fst ` set (cell_letter st')" for c'
      proof -
        have "map_of (cell_letter st') c' \<noteq> None" using that by (simp add: map_of_eq_None_iff)
        then have "c' \<noteq> c" "map_of (cell_letter st) c' \<noteq> None"
          by (auto simp: f delete_conv' split: if_splits)
        then have "c' \<in> fst ` set (cell_letter st)" by (simp add: map_of_eq_None_iff)
        then show ?thesis using D(4)[of c'] cov[of c'] \<open>c' \<noteq> c\<close> by simp
      qed
      show "map_of (cell_letter st') c' = Some l" if "p \<in># add_mset cur P" "(c', l) \<in> set p" for p c' l
      proof -
        have "c' \<noteq> c" using uncovered[OF that(1)] that(2) by force
        then show ?thesis using old[OF that] by (simp add: f delete_conv')
      qed
      show "counter_get (budget st') ch' + int (letter_count (cell_letter st') ch') = int (count_list phrase ch')" for ch'
        using D(6)[of ch'] letter_count_delete[OF D(1) cl_c, of ch'] by (auto simp: f)
    qed
  next
    case False
    define st' where "st' = st\<lparr>cell_usage := counter_add c (- 1) (cell_usage st)\<rparr>"
    have eq: "unplace_cell c ch st = st'"
      using False by (simp add: unplace_cell_def Let_def st'_def)
    have f: "cell_letter st' = cell_letter st" "budget st' = budget st"
      "cell_usage st' = counter_add c (- 1) (cell_usage st)" by (simp_all add: st'_def)
    show ?thesis unfolding eq
    proof (rule inv0I)
      show "distinct (map fst (cell_letter st'))" using D(1) by (simp add: f)
      show "distinct (map fst (budget st'))" using D(2) by (simp add: f)
      show "counter_get (cell_usage st') c' = int (covering (add_mset cur P) c')" for c'
        using D(3)[of c'] cov[of c'] by (auto simp: f)
      show "0 < covering (add_mset cur P) c'" if "c' \<in> fst ` set (cell_letter st')" for c'
        using that D(4)[of c'] D(3)[of c'] cov[of c'] False by (auto simp: f split: if_splits)
      show "map_of (cell_letter st') c' = Some l" if "p \<in># add_mset cur P" "(c', l) \<in> set p" for p c' l
        using old[OF that] by (simp add: f)
      show "counter_get (budget st') ch' + int (letter_count (cell_letter st') ch') = int (count_list phrase ch')" for ch'
        using D(6)[of ch'] by (simp add: f)
    qed
  qed
qed

lemma inv0_empty_piece: "inv0 phrase (add_mset [] P) st = inv0 phrase P st"
  by (simp add: inv0_def covering_add)

lemma place_cell_fields:
  "counter_get (cell_usage (place_cell c ch st)) c' = counter_get (cell_usage st) c' + (if c' = c then 1 else 0)"
  "map_of (cell_letter (place_cell c ch st)) c' =
     (if c' = c \<and> counter_get (cell_usage st) c = 0 then Some ch else map_of (cell_letter st) c')"
  "frame_eq st (place_cell c ch st)"
  by (simp_all add: place_cell_def update_conv' frame_eq_def)

lemma place_cells_inv0:
  assumes "inv0 phrase (add_mset cur P) st" "distinct cs" "set cs \<inter> fst ` set cur = {}"
    "k + length cs \<le> length word"
    "\<And>j l. j < length cs \<Longrightarrow> map_of (cell_letter st) (cs ! j) = Some l \<Longrightarrow> l = word ! (k + j)"
    "place_cells word k cs st = Inr st'"
  shows "inv0 phrase (add_mset (cur @ zip cs (drop k word)) P) st'"
  using assms
proof (induction cs arbitrary: k cur st)
  case Nil
  then show ?case by simp
next
  case (Cons c cs)
  let ?s = "place_cell c (word ! k) st"
  have k: "k < length word" using Cons.prems(4) by simp
  have run: "place_cells word (Suc k) cs ?s = Inr st'"
    using Cons.prems(6) k by (simp add: place_cells_Cons)
  have step: "inv0 phrase (add_mset (cur @ [(c, word ! k)]) P) ?s"
  proof (rule place_cell_inv0[OF Cons.prems(1)])
    show "c \<notin> fst ` set cur" using Cons.prems(3) by auto
    show "\<And>l. map_of (cell_letter st) c = Some l \<Longrightarrow> l = word ! k"
      using Cons.prems(5)[of 0] by simp
  qed
  have "inv0 phrase (add_mset ((cur @ [(c, word ! k)]) @ zip cs (drop (Suc k) word)) P) st'"
  proof (rule Cons.IH[OF step _ _ _ _ run])
    show "distinct cs" using Cons.prems(2) by simp
    show "set cs \<inter> fst ` set (cur @ [(c, word ! k)]) = {}" using Cons.prems(2,3) by auto
    show "Suc k + length cs \<le> length word" using Cons.prems(4) by simp
    show "l = word ! (Suc k + j)" if "j < length cs" "map_of (cell_letter ?s) (cs ! j) = Some l" for j l
    proof -
      have "cs ! j \<noteq> c" using that(1) Cons.prems(2) by auto
      then have "map_of (cell_letter st) ((c # cs) ! Suc j) = Some l"
        using that(2) by (simp add: place_cell_fields)
      then show ?thesis using Cons.prems(5)[of "Suc j" l] that(1) by simp
    qed
  qed
  moreover have "drop k word = word ! k # drop (Suc k) word"
    using k by (simp add: Cons_nth_drop_Suc)
  ultimately show ?case by simp
qed

lemma unplace_cell_frame: "frame_eq st (unplace_cell c ch st)"
  by (simp add: unplace_cell_def Let_def frame_eq_def)

lemma unplace_cells_inv0:
  assumes "inv0 phrase (add_mset (zip cs (drop k word)) P) st" "distinct cs"
    "k + length cs \<le> length word"
  shows "\<exists>st'. unplace_cells word k cs st = Inr st' \<and> inv0 phrase P st' \<and> frame_eq st st' \<and>
     (\<forall>ch. counter_get (budget st) ch \<le> counter_get (budget st') ch)"
  using assms
proof (induction cs arbitrary: k st)
  case Nil
  then show ?case by (simp add: inv0_empty_piece frame_eq_def)
next
  case (Cons c cs)
  let ?s = "unplace_cell c (word ! k) st"
  have k: "k < length word" using Cons.prems(3) by simp
  have dr: "drop k word = word ! k # drop (Suc k) word"
    using k by (simp add: Cons_nth_drop_Suc)
  have I: "inv0 phrase (add_mset ((c, word ! k) # zip cs (drop (Suc k) word)) P) st"
    using Cons.prems(1) dr by simp
  have nc: "c \<notin> fst ` set (zip cs (drop (Suc k) word))"
    using Cons.prems(2) by (auto dest: set_zip_leftD)
  note S = unplace_cell_inv0[OF I nc]
  from Cons.IH[OF S(2)] Cons.prems(2,3)
  obtain st' where st': "unplace_cells word (Suc k) cs ?s = Inr st'" "inv0 phrase P st'"
    "frame_eq ?s st'" "\<forall>ch. counter_get (budget ?s) ch \<le> counter_get (budget st') ch"
    by auto
  have "unplace_cells word k (c # cs) st = Inr st'"
    using st'(1) k S(1) by (simp add: unplace_cells_Cons)
  moreover have "frame_eq st st'" using st'(3) unplace_cell_frame[of st c "word ! k"]
    by (simp add: frame_eq_def)
  moreover have "\<forall>ch. counter_get (budget st) ch \<le> counter_get (budget st') ch"
    using st'(4) S(3) by (meson order_trans)
  ultimately show ?case using st'(2) by blast
qed

lemma newly_claimed_cong0:
  "(\<And>c. c \<in> set cs \<Longrightarrow> (u c = 0) = (u' c = 0)) \<Longrightarrow>
   newly_claimed u word k cs ch = newly_claimed u' word k cs ch"
  by (induction cs arbitrary: k) auto

lemma newly_claimed_nonneg: "0 \<le> newly_claimed u word k cs ch"
  by (induction cs arbitrary: k) auto

lemma need_cells_closed_aux:
  "need_cells word k cs cl need0 = Inr (Some need) \<Longrightarrow>
     (cs \<noteq> [] \<longrightarrow> k + length cs \<le> length word) \<and>
     (\<forall>j l. j < length cs \<longrightarrow> map_of cl (cs ! j) = Some l \<longrightarrow> l = word ! (k + j)) \<and>
     (\<forall>ch. counter_get need ch = counter_get need0 ch
           + newly_claimed (\<lambda>c. if c \<in> fst ` set cl then 1 else 0) word k cs ch)"
proof (induction cs arbitrary: k need0)
  case Nil
  then show ?case by simp
next
  case (Cons c cs)
  have run: "need_cells word k (c # cs) cl need0 = Inr (Some need)" by fact
  then have k: "k < length word"
    by (auto simp: bind_err_eq_Inr str_index_eq_Inr)
  define need1 where "need1 = (if map_of cl c = None then counter_add (word ! k) 1 need0 else need0)"
  have r: "need_cells word (Suc k) cs cl need1 = Inr (Some need)"
    and e: "\<And>l'. map_of cl c = Some l' \<Longrightarrow> l' = word ! k"
    using run k by (auto simp: need1_def split: option.splits if_splits)
  note IH = Cons.IH[OF r]
  have key: "c \<in> fst ` set cl \<longleftrightarrow> map_of cl c \<noteq> None" by (simp add: map_of_eq_None_iff)
  show ?case
  proof (intro conjI allI impI)
    show "k + length (c # cs) \<le> length word" using IH k by (cases cs) auto
    show "l = word ! (k + j)" if "j < length (c # cs)" "map_of cl ((c # cs) ! j) = Some l" for j l
    proof (cases j)
      case 0
      then show ?thesis using that e by simp
    next
      case (Suc j')
      then show ?thesis using IH that by simp
    qed
    show "counter_get need ch = counter_get need0 ch
           + newly_claimed (\<lambda>c. if c \<in> fst ` set cl then 1 else 0) word k (c # cs) ch" for ch
      using IH key by (auto simp: need1_def)
  qed
qed

lemma need_cells_closed:
  assumes "need_cells word k cs cl need0 = Inr (Some need)"
  shows "cs \<noteq> [] \<Longrightarrow> k + length cs \<le> length word"
    and "\<And>j l. j < length cs \<Longrightarrow> map_of cl (cs ! j) = Some l \<Longrightarrow> l = word ! (k + j)"
    and "counter_get need ch = counter_get need0 ch
           + newly_claimed (\<lambda>c. if c \<in> fst ` set cl then 1 else 0) word k cs ch"
  using need_cells_closed_aux[OF assms] by blast+

lemma can_place_True:
  assumes "can_place E st i word = Inr True"
  shows "\<exists>s need. dict_get (by_id E) i = Inr s \<and>
           need_cells word 0 (cells s) (cell_letter st) [] = Inr (Some need) \<and>
           list_all (\<lambda>(ch, cnt). \<not> cnt > counter_get (budget st) ch) need"
  using assms unfolding can_place_def
  by (auto simp: bind_err_eq_Inr Let_def split: if_splits option.splits)

lemma need_le_budget:
  assumes "list_all (\<lambda>(ch, cnt). \<not> cnt > counter_get b ch) need" "\<And>ch. 0 \<le> counter_get b ch"
  shows "counter_get need ch \<le> counter_get b ch"
proof (cases "map_of need ch")
  case None
  then show ?thesis using assms(2)[of ch] by (simp add: counter_get_def)
next
  case (Some v)
  then have "(ch, v) \<in> set need" by (rule map_of_SomeD)
  then have "v \<le> counter_get b ch" using assms(1) by (auto simp: list_all_iff)
  then show ?thesis using Some by (simp add: counter_get_def[of need])
qed

lemma inv0_usage_zero_iff:
  assumes "inv0 phrase P st"
  shows "counter_get (cell_usage st) c = 0 \<longleftrightarrow> c \<notin> fst ` set (cell_letter st)"
proof
  assume "counter_get (cell_usage st) c = 0"
  then have "covering P c = 0" using inv0D(3)[OF assms, of c] by simp
  then show "c \<notin> fst ` set (cell_letter st)" using inv0D(4)[OF assms, of c] by auto
next
  assume nk: "c \<notin> fst ` set (cell_letter st)"
  have "\<not> 0 < covering P c"
  proof
    assume "0 < covering P c"
    then obtain p where p: "p \<in># P" "c \<in> fst ` set p" using covering_pos_iff by blast
    then obtain l where "(c, l) \<in> set p" by force
    then have "map_of (cell_letter st) c = Some l" using inv0D(5)[OF assms p(1)] by blast
    then show False using nk by (simp add: map_of_eq_None_iff[symmetric])
  qed
  then show "counter_get (cell_usage st) c = 0" using inv0D(3)[OF assms, of c] by simp
qed

lemma inv0_sol_update [simp]: "inv0 phrase P (st\<lparr>sol := x\<rparr>) = inv0 phrase P st"
  by (simp add: inv0_def)

lemma update_fresh_append: "k \<notin> fst ` set al \<Longrightarrow> AList.update k v al = al @ [(k, v)]"
  by (induction al) auto

lemma dict_get_slot_cells: "dict_get (by_id E) i = Inr s \<Longrightarrow> slot_cells E i = cells s"
  by (auto simp: dict_get_def slot_cells_def split: option.splits)

lemma place_inv:
  assumes I: "search_inv E phrase st" and fresh: "i \<notin> fst ` set (sol st)"
    and s: "dict_get (by_id E) i = Inr s" and dist: "distinct (cells s)"
    and cp: "can_place E st i word = Inr True"
  shows "\<exists>st1. place E i word st = Inr st1 \<and> search_inv E phrase st1 \<and>
           sol st1 = sol st @ [(i, word)] \<and> solutions st1 = solutions st \<and>
           seen_signatures st1 = seen_signatures st \<and> checks st1 = checks st"
proof -
  from can_place_True[OF cp] s obtain need where
    nd: "need_cells word 0 (cells s) (cell_letter st) [] = Inr (Some need)"
    and la: "list_all (\<lambda>(ch, cnt). \<not> cnt > counter_get (budget st) ch) need" by auto
  note N = need_cells_closed[OF nd]
  have len: "length (cells s) \<le> length word" using N(1) by (cases "cells s") auto
  have I0: "inv0 phrase (pieces_of E (sol st)) st" and nn: "\<And>ch. 0 \<le> counter_get (budget st) ch"
    and ds: "distinct (map fst (sol st))"
    and lens: "\<And>iw. iw \<in> set (sol st) \<Longrightarrow> length (slot_cells E (fst iw)) \<le> length (snd iw)"
    using I by (auto simp: search_inv_def)
  from place_cells_closed[OF dist, of 0 word st] len
  obtain p where p: "place_cells word 0 (cells s) st = Inr p" "frame_eq st p"
    "\<forall>ch. counter_get (budget p) ch = counter_get (budget st) ch - newly_claimed (counter_get (cell_usage st)) word 0 (cells s) ch"
    by auto
  define st1 where "st1 = p\<lparr>sol := AList.update i word (sol p)\<rparr>"
  have pl: "place E i word st = Inr st1" using s p(1) by (simp add: place_def st1_def)
  have solp: "sol p = sol st" using p(2) by (simp add: frame_eq_def)
  have sol1: "sol st1 = sol st @ [(i, word)]"
    using fresh by (simp add: st1_def solp update_fresh_append)
  have "inv0 phrase (add_mset ([] @ zip (cells s) (drop 0 word)) (pieces_of E (sol st))) p"
  proof (rule place_cells_inv0[OF _ dist _ _ _ p(1)])
    show "inv0 phrase (add_mset [] (pieces_of E (sol st))) st" using I0 by (simp add: inv0_empty_piece)
    show "set (cells s) \<inter> fst ` set [] = {}" by simp
    show "0 + length (cells s) \<le> length word" using len by simp
    show "\<And>j l. j < length (cells s) \<Longrightarrow> map_of (cell_letter st) (cells s ! j) = Some l \<Longrightarrow> l = word ! (0 + j)"
      using N(2) by simp
  qed
  moreover have "pieces_of E (sol st1) = add_mset (zip (cells s) word) (pieces_of E (sol st))"
    by (simp add: sol1 pieces_of_def dict_get_slot_cells[OF s])
  ultimately have inv1: "inv0 phrase (pieces_of E (sol st1)) st1" by (simp add: st1_def)
  have nc_eq: "newly_claimed (counter_get (cell_usage st)) word 0 (cells s) ch
      = newly_claimed (\<lambda>c. if c \<in> fst ` set (cell_letter st) then 1 else 0) word 0 (cells s) ch" for ch
    by (rule newly_claimed_cong0) (simp add: inv0_usage_zero_iff[OF I0])
  have nn1: "0 \<le> counter_get (budget st1) ch" for ch
  proof -
    have "counter_get need ch \<le> counter_get (budget st) ch" using need_le_budget[OF la nn] .
    moreover have "counter_get need ch = newly_claimed (counter_get (cell_usage st)) word 0 (cells s) ch"
      using N(3)[of ch] nc_eq[of ch] by (simp add: counter_get_def)
    ultimately show ?thesis using p(3)[rule_format, of ch] by (simp add: st1_def)
  qed
  have "search_inv E phrase st1"
    unfolding search_inv_def
    using inv1 nn1 ds fresh lens len by (auto simp: sol1 dict_get_slot_cells[OF s])
  moreover have "solutions st1 = solutions st \<and> seen_signatures st1 = seen_signatures st \<and> checks st1 = checks st"
    using p(2) by (simp add: frame_eq_def st1_def)
  ultimately show ?thesis using pl sol1 by blast
qed

lemma mset_delete_key:
  "distinct (map fst al) \<Longrightarrow> (k, v) \<in> set al \<Longrightarrow> mset al = add_mset (k, v) (mset (AList.delete k al))"
proof (induction al)
  case Nil
  then show ?case by simp
next
  case (Cons a al)
  show ?case
  proof (cases "a = (k, v)")
    case True
    then have "k \<notin> fst ` set al" using Cons.prems(1) by auto
    then show ?thesis using True by (simp add: delete_id)
  next
    case False
    then have "(k, v) \<in> set al" using Cons.prems(2) by simp
    moreover from this have "fst a \<noteq> k" using Cons.prems(1) by (cases a) force
    ultimately show ?thesis using Cons.IH Cons.prems(1) by (cases a) simp
  qed
qed

lemma unplace_inv:
  assumes I: "search_inv E phrase st" and mem: "(i, word) \<in> set (sol st)"
    and s: "dict_get (by_id E) i = Inr s" and dist: "distinct (cells s)"
  shows "\<exists>st3. unplace E i word st = Inr st3 \<and> search_inv E phrase st3 \<and>
           sol st3 = AList.delete i (sol st) \<and> solutions st3 = solutions st \<and>
           seen_signatures st3 = seen_signatures st \<and> checks st3 = checks st"
proof -
  have I0: "inv0 phrase (pieces_of E (sol st)) st" and nn: "\<And>ch. 0 \<le> counter_get (budget st) ch"
    and ds: "distinct (map fst (sol st))"
    and lens: "\<And>iw. iw \<in> set (sol st) \<Longrightarrow> length (slot_cells E (fst iw)) \<le> length (snd iw)"
    using I by (auto simp: search_inv_def)
  have len: "length (cells s) \<le> length word"
    using lens[OF mem] by (simp add: dict_get_slot_cells[OF s])
  have pc: "pieces_of E (sol st) = add_mset (zip (cells s) (drop 0 word)) (pieces_of E (AList.delete i (sol st)))"
    using mset_delete_key[OF ds mem] by (simp add: pieces_of_def dict_get_slot_cells[OF s])
  from unplace_cells_inv0[of phrase "cells s" 0 word "pieces_of E (AList.delete i (sol st))" st] I0 pc dist len
  obtain q where q: "unplace_cells word 0 (cells s) st = Inr q"
    "inv0 phrase (pieces_of E (AList.delete i (sol st))) q" "frame_eq st q"
    "\<forall>ch. counter_get (budget st) ch \<le> counter_get (budget q) ch" by auto
  define st3 where "st3 = q\<lparr>sol := AList.delete i (sol q)\<rparr>"
  have solq: "sol q = sol st" using q(3) by (simp add: frame_eq_def)
  have "i \<in> fst ` set (sol st)" using mem by force
  then have un: "unplace E i word st = Inr st3" using s q(1) by (simp add: unplace_def st3_def solq)
  have sol3: "sol st3 = AList.delete i (sol st)" by (simp add: st3_def solq)
  have nn3: "0 \<le> counter_get (budget st3) ch" for ch
    using nn[of ch] q(4)[rule_format, of ch] by (simp add: st3_def)
  have sub: "set (AList.delete i (sol st)) \<subseteq> set (sol st)" by (auto simp: AList.delete_eq)
  have "search_inv E phrase st3"
    unfolding search_inv_def
    using q(2) nn3 ds lens sub by (auto simp: sol3 st3_def solq distinct_delete)
  moreover have "solutions st3 = solutions st \<and> seen_signatures st3 = seen_signatures st \<and> checks st3 = checks st"
    using q(3) by (simp add: frame_eq_def st3_def)
  ultimately show ?thesis using un sol3 by blast
qed

lemma grows_same: "solutions s' = solutions s \<Longrightarrow> grows E phrase s s'"
  by (simp add: grows_def)

lemma grows_trans: "grows E phrase s s' \<Longrightarrow> grows E phrase s' s'' \<Longrightarrow> grows E phrase s s''"
  unfolding grows_def by fastforce

lemma search_inv_cong:
  "budget s' = budget s \<Longrightarrow> cell_letter s' = cell_letter s \<Longrightarrow> cell_usage s' = cell_usage s \<Longrightarrow>
   sol s' = sol s \<Longrightarrow> search_inv E phrase s' = search_inv E phrase s"
  by (simp add: search_inv_def inv0_def)

lemma search_inv_tick [simp]: "search_inv E phrase (tick st) = search_inv E phrase st"
  by (rule search_inv_cong) (simp_all add: tick_def)

lemma tick_fields [simp]:
  "sol (tick st) = sol st" "solutions (tick st) = solutions st"
  "seen_signatures (tick st) = seen_signatures st" "budget (tick st) = budget st"
  "cell_letter (tick st) = cell_letter st" "cell_usage (tick st) = cell_usage st"
  by (simp_all add: tick_def)

lemma letter_count_count: "letter_count cl ch = count (mset (map snd cl)) ch"
  by (induction cl) (auto simp: letter_count_def)

lemma budget_exact_zero:
  assumes "budget_exact st"
  shows "counter_get (budget st) ch = 0"
proof (cases "map_of (budget st) ch")
  case None
  then show ?thesis by (simp add: counter_get_def)
next
  case (Some v)
  then have m: "(ch, v) \<in> set (budget st)" by (rule map_of_SomeD)
  have nn: "\<forall>x \<in> set (map snd (budget st)). 0 \<le> x"
    using assms by (auto simp: budget_exact_def list_all_iff)
  have "sum_list (map snd (budget st)) = 0" using assms by (simp add: budget_exact_def)
  moreover have "sum_list (map snd (budget st)) = 0 \<longleftrightarrow> (\<forall>x \<in> set (map snd (budget st)). x = 0)"
    by (rule sum_list_nonneg_eq_0_iff) (use nn in blast)
  ultimately have "\<forall>x \<in> set (map snd (budget st)). x = 0" by blast
  then have "v = 0" using m by force
  then show ?thesis using Some by (simp add: counter_get_def)
qed

lemma goal_valid:
  assumes I: "search_inv E phrase st" and all: "fst ` set (sol st) = set (ids E)"
    and ex: "budget_exact st"
  shows "valid_filling E phrase (sol st)"
proof -
  have I0: "inv0 phrase (pieces_of E (sol st)) st"
    and ds: "distinct (map fst (sol st))"
    and lens: "\<And>iw. iw \<in> set (sol st) \<Longrightarrow> length (slot_cells E (fst iw)) \<le> length (snd iw)"
    using I by (auto simp: search_inv_def)
  note D = inv0D[OF I0]
  have pc: "\<And>iw j. iw \<in> set (sol st) \<Longrightarrow> j < length (slot_cells E (fst iw)) \<Longrightarrow>
      map_of (cell_letter st) (slot_cells E (fst iw) ! j) = Some (snd iw ! j)"
  proof -
    fix iw j assume a: "iw \<in> set (sol st)" "j < length (slot_cells E (fst iw))"
    then have "j < length (snd iw)" using lens[OF a(1)] by simp
    then have "(slot_cells E (fst iw) ! j, snd iw ! j) \<in> set (zip (slot_cells E (fst iw)) (snd iw))"
      using a(2) by (auto simp: set_zip)
    moreover have "zip (slot_cells E (fst iw)) (snd iw) \<in># pieces_of E (sol st)"
      using a(1) by (auto simp: pieces_of_def)
    ultimately show "map_of (cell_letter st) (slot_cells E (fst iw) ! j) = Some (snd iw ! j)"
      using D(5) by blast
  qed
  have keys: "c \<in> fst ` set (cell_letter st) \<longleftrightarrow> (\<exists>i \<in> set (ids E). c \<in> set (slot_cells E i))" for c
  proof
    assume "c \<in> fst ` set (cell_letter st)"
    then have "0 < covering (pieces_of E (sol st)) c" by (rule D(4))
    then obtain p where p: "p \<in># pieces_of E (sol st)" "c \<in> fst ` set p"
      using covering_pos_iff by blast
    then obtain iw where iw: "iw \<in> set (sol st)" "p = zip (slot_cells E (fst iw)) (snd iw)"
      by (auto simp: pieces_of_def)
    then have "c \<in> set (slot_cells E (fst iw))" using p(2) by (auto dest: set_zip_leftD)
    moreover have "fst iw \<in> set (ids E)" using iw(1) all by force
    ultimately show "\<exists>i \<in> set (ids E). c \<in> set (slot_cells E i)" by blast
  next
    assume "\<exists>i \<in> set (ids E). c \<in> set (slot_cells E i)"
    then obtain i where i: "i \<in> set (ids E)" "c \<in> set (slot_cells E i)" by blast
    then obtain iw where iw: "iw \<in> set (sol st)" "fst iw = i" using all by force
    obtain j where j: "j < length (slot_cells E i)" "slot_cells E i ! j = c"
      using i(2) by (auto simp: in_set_conv_nth)
    then have "map_of (cell_letter st) c = Some (snd iw ! j)" using pc[OF iw(1), of j] iw(2) by simp
    then show "c \<in> fst ` set (cell_letter st)" by (metis domI dom_map_of_conv_image_fst)
  qed
  have "count (mset (map snd (cell_letter st))) ch = count (mset phrase) ch" for ch
    using D(6)[of ch] budget_exact_zero[OF ex, of ch]
    by (simp add: letter_count_count count_mset)
  then have ms: "mset (map snd (cell_letter st)) = mset phrase" by (rule multiset_eqI)
  have A: "\<forall>c. c \<in> fst ` set (cell_letter st) \<longleftrightarrow> (\<exists>i \<in> set (ids E). c \<in> set (slot_cells E i))"
    using keys by blast
  have B: "\<forall>iw \<in> set (sol st). length (slot_cells E (fst iw)) \<le> length (snd iw) \<and>
            (\<forall>j < length (slot_cells E (fst iw)).
               map_of (cell_letter st) (slot_cells E (fst iw) ! j) = Some (snd iw ! j))"
    using lens pc by blast
  show ?thesis
    unfolding valid_filling_def using all ds D(1) A B ms by blast
qed

lemma record_solution_sound:
  assumes "search_inv E phrase st" "fst ` set (sol st) = set (ids E)"
    "record_solution E st = Inr st'"
  shows "search_inv E phrase st' \<and> sol st' = sol st \<and> grows E phrase st st'"
proof (cases "st' = st")
  case True
  then show ?thesis using assms(1) by (simp add: grows_same)
next
  case False
  then obtain sg where ex: "budget_exact st"
    and st': "st' = st\<lparr>seen_signatures := seen_signatures st @ [sg], solutions := solutions st @ [sol st]\<rparr>"
    using assms(3) unfolding record_solution_def
    by (auto simp: bind_err_eq_Inr split: if_splits)
  have "valid_filling E phrase (sol st)" using goal_valid[OF assms(1,2) ex] .
  then have "grows E phrase st st'" by (simp add: grows_def st')
  moreover have "search_inv E phrase st' = search_inv E phrase st"
    by (rule search_inv_cong) (simp_all add: st')
  ultimately show ?thesis using assms(1) by (simp add: st')
qed

lemma try_words_sound:
  assumes K: "\<And>s s'. search_inv E phrase s \<Longrightarrow> fst ` set (sol s) = insert i D \<Longrightarrow> k s = Inr s' \<Longrightarrow>
                search_inv E phrase s' \<and> sol s' = sol s \<and> grows E phrase s s'"
    and sl: "dict_get (by_id E) i = Inr sl" "distinct (cells sl)" and iD: "i \<notin> D"
  shows "search_inv E phrase st \<Longrightarrow> fst ` set (sol st) = D \<Longrightarrow> try_words E k i ws st = Inr st' \<Longrightarrow>
           search_inv E phrase st' \<and> sol st' = sol st \<and> grows E phrase st st'"
proof (induction ws arbitrary: st)
  case Nil
  then show ?case by (simp add: grows_same)
next
  case (Cons w ws)
  show ?case
  proof (cases "expired E (checks st)")
    case True
    then have "st' = tick st" using Cons.prems(3) by simp
    then show ?thesis using Cons.prems(1) by (simp add: grows_same)
  next
    case False
    then obtain ok where ok: "can_place E (tick st) i w = Inr ok"
      using Cons.prems(3) by (auto simp: bind_err_eq_Inr)
    show ?thesis
    proof (cases ok)
      case False
      then have "try_words E k i ws (tick st) = Inr st'"
        using Cons.prems(3) ok \<open>\<not> expired E (checks st)\<close> by simp
      from Cons.IH[OF _ _ this] Cons.prems(1,2)
      have "search_inv E phrase st' \<and> sol st' = sol (tick st) \<and> grows E phrase (tick st) st'" by simp
      then show ?thesis by (simp add: grows_def)
    next
      case True
      have It: "search_inv E phrase (tick st)" using Cons.prems(1) by simp
      have fr: "i \<notin> fst ` set (sol (tick st))" using Cons.prems(2) iD by simp
      from place_inv[OF It fr sl] ok True
      obtain st1 where st1: "place E i w (tick st) = Inr st1" "search_inv E phrase st1"
        "sol st1 = sol st @ [(i, w)]" "solutions st1 = solutions st" by auto
      from Cons.prems(3) ok True \<open>\<not> expired E (checks st)\<close> st1(1)
      obtain st2 st3 where st2: "k st1 = Inr st2" and st3: "unplace E i w st2 = Inr st3"
        and rest: "(if int (length (solutions st3)) \<ge> max_solutions E then Inr st3
              else if expired E (checks st3) then Inr (tick st3)
              else try_words E k i ws (tick st3)) = Inr st'"
        by (auto simp: bind_err_eq_Inr)
      have d1: "fst ` set (sol st1) = insert i D" using st1(3) Cons.prems(2) by auto
      from K[OF st1(2) d1 st2]
      have s2: "search_inv E phrase st2" "sol st2 = sol st1" "grows E phrase st1 st2" by auto
      have mem: "(i, w) \<in> set (sol st2)" using s2(2) st1(3) by simp
      from unplace_inv[OF s2(1) mem sl] st3
      have s3: "search_inv E phrase st3" "sol st3 = AList.delete i (sol st2)"
        "solutions st3 = solutions st2" by auto
      have sol3: "sol st3 = sol st"
        using s3(2) s2(2) st1(3) Cons.prems(2) iD
        by (metis delete_update_fresh update_fresh_append)
      have g3: "grows E phrase st st3"
        using s2(3) st1(4) s3(3) by (simp add: grows_def)
      show ?thesis
      proof (cases "int (length (solutions st3)) \<ge> max_solutions E")
        case True
        then show ?thesis using rest s3(1) sol3 g3 by simp
      next
        case nmax: False
        show ?thesis
        proof (cases "expired E (checks st3)")
          case True
          then have "st' = tick st3" using rest nmax by simp
          then show ?thesis using s3(1) sol3 g3 by (simp add: grows_def)
        next
          case False
          then have "try_words E k i ws (tick st3) = Inr st'" using rest nmax by simp
          from Cons.IH[OF _ _ this] s3(1) sol3 Cons.prems(2)
          have "search_inv E phrase st' \<and> sol st' = sol (tick st3) \<and> grows E phrase (tick st3) st'" by simp
          then have "search_inv E phrase st' \<and> sol st' = sol st \<and> grows E phrase st3 st'"
            using sol3 by (simp add: grows_def)
          then show ?thesis using g3 grows_trans by blast
        qed
      qed
    qed
  qed
qed

lemma dfs_sound:
  assumes wf: "\<And>i. i \<in> set (ids E) \<Longrightarrow> \<exists>s. dict_get (by_id E) i = Inr s \<and> distinct (cells s)"
  shows "set rest \<subseteq> set (ids E) \<Longrightarrow> distinct rest \<Longrightarrow> search_inv E phrase st \<Longrightarrow>
     fst ` set (sol st) = set (ids E) - set rest \<Longrightarrow> dfs E rest st = Inr st' \<Longrightarrow>
     search_inv E phrase st' \<and> sol st' = sol st \<and> grows E phrase st st'"
proof (induction rest arbitrary: st st')
  case Nil
  show ?case
  proof (cases "expired E (checks st) \<or> int (length (solutions st)) \<ge> max_solutions E")
    case True
    then have "st' = tick st" using Nil.prems(5) by (auto split: if_splits)
    then show ?thesis using Nil.prems(3) by (simp add: grows_same)
  next
    case False
    then have "record_solution E (tick st) = Inr st'" using Nil.prems(5) by simp
    from record_solution_sound[OF _ _ this] Nil.prems(3,4)
    have "search_inv E phrase st' \<and> sol st' = sol (tick st) \<and> grows E phrase (tick st) st'" by simp
    then show ?thesis by (simp add: grows_def)
  qed
next
  case (Cons i rest)
  show ?case
  proof (cases "expired E (checks st) \<or> int (length (solutions st)) \<ge> max_solutions E")
    case True
    then have "st' = tick st" using Cons.prems(5) by (auto split: if_splits)
    then show ?thesis using Cons.prems(3) by (simp add: grows_same)
  next
    case False
    then obtain ws where ws: "try_words E (dfs E rest) i ws (tick st) = Inr st'"
      using Cons.prems(5) by (auto simp: bind_err_eq_Inr)
    have i: "i \<in> set (ids E)" "i \<notin> set rest" using Cons.prems(1,2) by auto
    from wf[OF i(1)] obtain sl where sl: "dict_get (by_id E) i = Inr sl" "distinct (cells sl)" by blast
    define D where "D = set (ids E) - set (i # rest)"
    have insD: "insert i D = set (ids E) - set rest" using i by (auto simp: D_def)
    have "search_inv E phrase st' \<and> sol st' = sol (tick st) \<and> grows E phrase (tick st) st'"
    proof (rule try_words_sound[OF _ sl _ _ _ ws])
      show "i \<notin> D" by (simp add: D_def)
      show "search_inv E phrase (tick st)" using Cons.prems(3) by simp
      show "fst ` set (sol (tick st)) = D" using Cons.prems(4) by (simp add: D_def)
      show "search_inv E phrase s' \<and> sol s' = sol s \<and> grows E phrase s s'"
        if "search_inv E phrase s" "fst ` set (sol s) = insert i D" "dfs E rest s = Inr s'" for s s'
        using Cons.IH[OF _ _ that(1) _ that(3)] that(2) insD Cons.prems(1,2) by simp
    qed
    then show ?thesis by (simp add: grows_def)
  qed
qed

lemma fold_update_other:
  "i \<notin> slot_id ` set xs \<Longrightarrow> map_of (fold (\<lambda>s. AList.update (slot_id s) s) xs d) i = map_of d i"
  by (induction xs arbitrary: d) (auto simp: update_conv')

lemma make_by_id_lookup:
  "distinct (map slot_id slots) \<Longrightarrow> s \<in> set slots \<Longrightarrow> map_of (make_by_id slots) (slot_id s) = Some s"
  unfolding make_by_id_def
proof (induction slots arbitrary: d)
  case Nil
  then show ?case by simp
next
  case (Cons x xs)
  have gen: "\<And>d. distinct (map slot_id (x # xs)) \<Longrightarrow> s \<in> set (x # xs) \<Longrightarrow>
      map_of (fold (\<lambda>s. AList.update (slot_id s) s) (x # xs) d) (slot_id s) = Some s"
  proof -
    fix d :: "(pystr \<times> slot) list"
    assume a: "distinct (map slot_id (x # xs))" "s \<in> set (x # xs)"
    show "map_of (fold (\<lambda>s. AList.update (slot_id s) s) (x # xs) d) (slot_id s) = Some s"
    proof (cases "s \<in> set xs")
      case True
      have "map_of (fold (\<lambda>s. AList.update (slot_id s) s) xs (AList.update (slot_id x) x d)) (slot_id s) = Some s"
        using a True
      proof (induction xs arbitrary: d x)
        case Nil
        then show ?case by simp
      next
        case (Cons y ys)
        show ?case
        proof (cases "s \<in> set ys")
          case True
          then show ?thesis using Cons.IH[of y "AList.update (slot_id x) x d"] Cons.prems by auto
        next
          case False
          then have sy: "s = y" using Cons.prems by auto
          have "slot_id y \<notin> slot_id ` set ys" using Cons.prems(1) by auto
          then show ?thesis using sy by (simp add: fold_update_other update_conv')
        qed
      qed
      then show ?thesis by simp
    next
      case False
      then have sx: "s = x" using a(2) by auto
      have "slot_id x \<notin> slot_id ` set xs" using a(1) by auto
      then show ?thesis using sx by (simp add: fold_update_other update_conv')
    qed
  qed
  show ?case using gen[of "[]"] Cons.prems by simp
qed

lemma map_err_snd:
  "map_err (\<lambda>s. bind_err (g s) (\<lambda>v. Inr (h s v, s))) xs = Inr ys \<Longrightarrow> map snd ys = xs"
  by (induction xs arbitrary: ys) (auto simp: bind_err_eq_Inr)

lemma order_slots_mset:
  assumes "order_slots slots cnd inters = Inr ordered"
  shows "mset ordered = mset slots"
proof -
  from assms obtain keyed where
    k: "map_err (\<lambda>s. bind_err (dict_get cnd (slot_id s)) (\<lambda>ws.
              Inr ((length ws, - counter_get (fold (\<lambda>x d. counter_add (slot_b x) 1 (counter_add (slot_a x) 1 d)) inters []) (slot_id s), slen s), s))) slots = Inr keyed"
    and o: "ordered = map snd (sort_key fst keyed)"
    unfolding order_slots_def Let_def by (auto simp: bind_err_eq_Inr)
  have "map snd keyed = slots" using map_err_snd[OF k] .
  moreover have "mset (map snd (sort_key fst keyed)) = mset (map snd keyed)"
    by (metis mset_map mset_sort)
  ultimately show ?thesis using o by simp
qed

lemma counter_fold:
  "counter_get (fold (\<lambda>x. counter_add x 1) xs d) ch = counter_get d ch + int (count_list xs ch)"
  by (induction xs arbitrary: d) auto

lemma counter_fold_distinct:
  "distinct (map fst d) \<Longrightarrow> distinct (map fst (fold (\<lambda>x. counter_add x (1::int)) xs d))"
  by (induction xs arbitrary: d) auto

lemma search_inv_initial: "search_inv E phrase (initial_state phrase)"
proof -
  have "inv0 phrase {#} (initial_state phrase)"
    by (rule inv0I)
      (simp_all add: initial_state_def Counter_def counter_fold counter_fold_distinct
         covering_def letter_count_def counter_get_def[of "[]"])
  then show ?thesis
    by (simp add: search_inv_def pieces_of_def initial_state_def Counter_def counter_fold
        counter_get_def[of "[]"])
qed

lemma make_env_fields:
  assumes "make_env slots inters cnd t m clock = Inr E"
  shows "by_id E = make_by_id slots" "mset (ids E) = mset (map slot_id slots)" "cand E = cnd"
    "max_solutions E = m"
proof -
  from assms obtain ec s2c ordered where
    "order_slots slots cnd inters = Inr ordered"
    and E: "E = \<lparr>by_id = make_by_id slots, cross = make_cross inters, sid_to_class = s2c,
            ids = map slot_id ordered, cand = cnd, max_solutions = m,
            expired = (\<lambda>n. t > 0 \<and> clock n)\<rparr>"
    unfolding make_env_def by (auto simp: bind_err_eq_Inr split: prod.splits)
  then have "mset ordered = mset slots" using order_slots_mset by blast
  then have "mset (map slot_id ordered) = mset (map slot_id slots)" by (metis mset_map)
  then show "by_id E = make_by_id slots" "mset (ids E) = mset (map slot_id slots)" "cand E = cnd"
    "max_solutions E = m"
    by (simp_all add: E)
qed

lemma find_solutions_sound:
  assumes d: "distinct (map slot_id slots)" and dc: "\<And>s. s \<in> set slots \<Longrightarrow> distinct (cells s)"
    and run: "find_solutions_for_grid slots inters phrase cnd t m clock = Inr sols"
  shows "\<exists>E. make_env slots inters cnd t m clock = Inr E \<and> (\<forall>a \<in> set sols. valid_filling E phrase a)"
proof -
  from run obtain E st where E: "make_env slots inters cnd t m clock = Inr E"
    and st: "dfs E (ids E) (initial_state phrase) = Inr st" and sols: "sols = solutions st"
    unfolding find_solutions_for_grid_def by (auto simp: bind_err_eq_Inr)
  note F = make_env_fields[OF E]
  have ids: "set (ids E) = slot_id ` set slots" "distinct (ids E)"
    using F(2) d by (metis mset_eq_setD set_map, metis mset_eq_imp_distinct_iff)
  have wf: "\<exists>s. dict_get (by_id E) i = Inr s \<and> distinct (cells s)" if "i \<in> set (ids E)" for i
  proof -
    from that ids(1) obtain s where s: "s \<in> set slots" "i = slot_id s" by auto
    then have "dict_get (by_id E) i = Inr s"
      using make_by_id_lookup[OF d s(1)] by (simp add: F(1) dict_get_def)
    then show ?thesis using dc[OF s(1)] by blast
  qed
  have "search_inv E phrase st \<and> sol st = sol (initial_state phrase) \<and> grows E phrase (initial_state phrase) st"
    by (rule dfs_sound[OF wf _ ids(2) search_inv_initial _ st]) (simp_all add: initial_state_def)
  then have "\<forall>a \<in> set (solutions st). valid_filling E phrase a"
    by (auto simp: grows_def initial_state_def)
  then show ?thesis using E sols by blast
qed

section \<open>Soundness of the solutions\<close>

lemma draw_keys: "fst ` set (draw ps g) = fst ` set g \<union> fst ` set ps"
  by (induction ps arbitrary: g) (auto simp: dom_update)

lemma draw_distinct: "distinct (map fst g) \<Longrightarrow> distinct (map fst (draw ps g))"
  by (induction ps arbitrary: g) (auto simp: distinct_update)

lemma draw_agree:
  assumes "\<And>p. p \<in> set ps \<Longrightarrow> m (fst p) = Some (snd p)"
    and "\<And>c l. map_of g c = Some l \<Longrightarrow> m c = Some l"
    and "map_of (draw ps g) c = Some l"
  shows "m c = Some l"
  using assms
proof (induction ps arbitrary: g)
  case Nil
  then show ?case by simp
next
  case (Cons p ps)
  show ?case
  proof (rule Cons.IH[of "AList.update (fst p) (snd p) g"])
    show "\<And>q. q \<in> set ps \<Longrightarrow> m (fst q) = Some (snd q)" using Cons.prems(1) by simp
    show "\<And>c l. map_of (AList.update (fst p) (snd p) g) c = Some l \<Longrightarrow> m c = Some l"
      using Cons.prems(1)[of p] Cons.prems(2) by (auto simp: update_conv' split: if_splits)
    show "map_of (draw ps (AList.update (fst p) (snd p) g)) c = Some l" using Cons.prems(3) by simp
  qed
qed

lemma grid_fold_props:
  fixes a :: assignment
  assumes "\<And>s p. s \<in> set ss \<Longrightarrow> p \<in> set (zip (cells s) (word_of a (slot_id s))) \<Longrightarrow> m (fst p) = Some (snd p)"
    and "\<And>c l. map_of g c = Some l \<Longrightarrow> m c = Some l" and "distinct (map fst g)"
  shows "distinct (map fst (fold (\<lambda>s. draw (zip (cells s) (word_of a (slot_id s)))) ss g)) \<and>
     fst ` set (fold (\<lambda>s. draw (zip (cells s) (word_of a (slot_id s)))) ss g)
          = fst ` set g \<union> (\<Union>s \<in> set ss. fst ` set (zip (cells s) (word_of a (slot_id s)))) \<and>
     (\<forall>c l. map_of (fold (\<lambda>s. draw (zip (cells s) (word_of a (slot_id s)))) ss g) c = Some l \<longrightarrow> m c = Some l)"
  using assms
proof (induction ss arbitrary: g)
  case Nil
  then show ?case by simp
next
  case (Cons s ss)
  let ?g = "draw (zip (cells s) (word_of a (slot_id s))) g"
  let ?F = "fold (\<lambda>s. draw (zip (cells s) (word_of a (slot_id s))))"
  have dg: "distinct (map fst ?g)" using Cons.prems(3) by (rule draw_distinct)
  have ag: "m c = Some l" if "map_of ?g c = Some l" for c l
  proof (rule draw_agree[OF _ _ that])
    show "\<And>p. p \<in> set (zip (cells s) (word_of a (slot_id s))) \<Longrightarrow> m (fst p) = Some (snd p)"
      using Cons.prems(1)[of s] by simp
    show "\<And>c l. map_of g c = Some l \<Longrightarrow> m c = Some l" by (rule Cons.prems(2))
  qed
  have pr: "\<And>s p. s \<in> set ss \<Longrightarrow> p \<in> set (zip (cells s) (word_of a (slot_id s))) \<Longrightarrow> m (fst p) = Some (snd p)"
    by (rule Cons.prems(1)) simp_all
  note IH = Cons.IH[of ?g, OF pr ag dg]
  have f: "?F (s # ss) g = ?F ss ?g" by simp
  have k: "fst ` set ?g = fst ` set g \<union> fst ` set (zip (cells s) (word_of a (slot_id s)))"
    by (rule draw_keys)
  show ?case unfolding f
  proof (intro conjI)
    show "distinct (map fst (?F ss ?g))" using IH by (rule conjunct1)
    have "fst ` set (?F ss ?g) = fst ` set ?g \<union> (\<Union>s \<in> set ss. fst ` set (zip (cells s) (word_of a (slot_id s))))"
      by (rule conjunct1[OF conjunct2[OF IH]])
    also have "\<dots> = fst ` set g \<union> (\<Union>s \<in> set (s # ss). fst ` set (zip (cells s) (word_of a (slot_id s))))"
      unfolding k by (simp only: list.set UN_insert Un_assoc)
    finally show "fst ` set (?F ss ?g) = fst ` set g \<union> (\<Union>s \<in> set (s # ss). fst ` set (zip (cells s) (word_of a (slot_id s))))" .
    show "\<forall>c l. map_of (?F ss ?g) c = Some l \<longrightarrow> m c = Some l"
      by (rule conjunct2[OF conjunct2[OF IH]])
  qed
qed

lemma alist_mset_eq:
  assumes "distinct (map fst a)" "distinct (map fst b)" "map_of a = map_of b"
  shows "mset a = mset b"
proof -
  have "set a = set b" using assms by (simp add: map_of_inject_set)
  moreover have "distinct a" "distinct b" using assms(1,2) by (auto simp: distinct_map)
  ultimately show ?thesis by (simp add: set_eq_iff_mset_eq_distinct)
qed

lemma fst_set_zip_full: "length xs \<le> length ys \<Longrightarrow> fst ` set (zip xs ys) = set xs"
proof -
  assume "length xs \<le> length ys"
  then have "map fst (zip xs ys) = xs" by (simp add: map_fst_zip_take)
  then have "set (map fst (zip xs ys)) = set xs" by simp
  then show ?thesis by simp
qed

lemma valid_filling_grid:
  assumes d: "distinct (map slot_id slots)"
    and E: "by_id E = make_by_id slots" "set (ids E) = slot_id ` set slots"
    and vf: "valid_filling E phrase a"
  shows "fst ` set a = slot_id ` set slots \<and>
     (\<forall>s \<in> set slots. length (cells s) \<le> length (word_of a (slot_id s)) \<and>
        (\<forall>j < length (cells s).
           map_of (solution_grid slots a) (cells s ! j) = Some (word_of a (slot_id s) ! j))) \<and>
     (\<forall>x \<in> set inters. crossing_of slots x \<longrightarrow>
        word_of a (slot_a x) ! pos_a x = word_of a (slot_b x) ! pos_b x) \<and>
     distinct (map fst (solution_grid slots a)) \<and>
     fst ` set (solution_grid slots a) = (\<Union>s \<in> set slots. set (cells s)) \<and>
     mset (map snd (solution_grid slots a)) = mset phrase"
proof -
  from vf obtain cl where dom: "fst ` set a = set (ids E)" and da: "distinct (map fst a)"
    and dcl: "distinct (map fst cl)"
    and keys: "\<forall>c. c \<in> fst ` set cl \<longleftrightarrow> (\<exists>i \<in> set (ids E). c \<in> set (slot_cells E i))"
    and con: "\<forall>iw \<in> set a. length (slot_cells E (fst iw)) \<le> length (snd iw) \<and>
            (\<forall>j < length (slot_cells E (fst iw)).
               map_of cl (slot_cells E (fst iw) ! j) = Some (snd iw ! j))"
    and ms: "mset (map snd cl) = mset phrase"
    unfolding valid_filling_def by blast
  have sc: "slot_cells E (slot_id s) = cells s" if "s \<in> set slots" for s
    using make_by_id_lookup[OF d that] by (simp add: slot_cells_def E(1))
  have wo: "(slot_id s, word_of a (slot_id s)) \<in> set a" if "s \<in> set slots" for s
  proof -
    have "slot_id s \<in> fst ` set a" using that dom E(2) by simp
    then obtain w where w: "(slot_id s, w) \<in> set a" by force
    then have "map_of a (slot_id s) = Some w" using da by simp
    then show ?thesis using w by (simp add: word_of_def)
  qed
  have S1: "length (cells s) \<le> length (word_of a (slot_id s))" if "s \<in> set slots" for s
    using con wo[OF that] sc[OF that] by force
  have S2: "map_of cl (cells s ! j) = Some (word_of a (slot_id s) ! j)"
    if "s \<in> set slots" "j < length (cells s)" for s j
  proof -
    have "\<forall>j < length (slot_cells E (slot_id s)).
               map_of cl (slot_cells E (slot_id s) ! j) = Some (word_of a (slot_id s) ! j)"
      using con wo[OF that(1)] by force
    then show ?thesis using that(2) sc[OF that(1)] by simp
  qed
  let ?G = "solution_grid slots a"
  have zp: "map_of cl (fst p) = Some (snd p)"
    if "s \<in> set slots" "p \<in> set (zip (cells s) (word_of a (slot_id s)))" for s p
  proof -
    from that(2) obtain j where j: "j < length (cells s)" "p = (cells s ! j, word_of a (slot_id s) ! j)"
      by (auto simp: set_zip)
    then show ?thesis using S2[OF that(1) j(1)] by simp
  qed
  have G: "distinct (map fst ?G) \<and>
     fst ` set ?G = fst ` set ([] :: (cell \<times> nat) list) \<union>
        (\<Union>s \<in> set slots. fst ` set (zip (cells s) (word_of a (slot_id s)))) \<and>
     (\<forall>c l. map_of ?G c = Some l \<longrightarrow> map_of cl c = Some l)"
    unfolding solution_grid_def
    by (rule grid_fold_props[where m = "map_of cl"]) (use zp in simp_all)
  have G1: "distinct (map fst ?G)" by (rule conjunct1[OF G])
  have "fst ` set ?G = (\<Union>s \<in> set slots. fst ` set (zip (cells s) (word_of a (slot_id s))))"
    using conjunct1[OF conjunct2[OF G]] by simp
  also have "\<dots> = (\<Union>s \<in> set slots. set (cells s))"
    using S1 by (simp add: fst_set_zip_full)
  finally have G2: "fst ` set ?G = (\<Union>s \<in> set slots. set (cells s))" .
  have G3: "\<And>c l. map_of ?G c = Some l \<Longrightarrow> map_of cl c = Some l"
    using conjunct2[OF conjunct2[OF G]] by blast
  have kcl: "fst ` set cl = (\<Union>s \<in> set slots. set (cells s))"
  proof (rule set_eqI)
    fix c
    have "c \<in> fst ` set cl \<longleftrightarrow> (\<exists>i \<in> set (ids E). c \<in> set (slot_cells E i))"
      using keys by blast
    also have "\<dots> \<longleftrightarrow> (\<exists>s \<in> set slots. c \<in> set (cells s))"
      using sc by (auto simp: E(2))
    finally show "c \<in> fst ` set cl \<longleftrightarrow> c \<in> (\<Union>s \<in> set slots. set (cells s))" by simp
  qed
  have "map_of ?G c = map_of cl c" for c
  proof (cases "map_of ?G c")
    case (Some l)
    then show ?thesis using G3 by simp
  next
    case None
    then have "c \<notin> fst ` set ?G" by (simp add: map_of_eq_None_iff)
    then have "c \<notin> fst ` set cl" by (simp add: G2 kcl)
    then have "map_of cl c = None" by (simp add: map_of_eq_None_iff)
    then show ?thesis using None by simp
  qed
  then have "map_of ?G = map_of cl" by (rule ext)
  then have "mset ?G = mset cl" using G1 dcl by (intro alist_mset_eq)
  then have "mset (map snd ?G) = mset (map snd cl)" by (metis mset_map)
  then have G4: "mset (map snd ?G) = mset phrase" using ms by simp
  have GC: "map_of ?G (cells s ! j) = Some (word_of a (slot_id s) ! j)"
    if "s \<in> set slots" "j < length (cells s)" for s j
    using S2[OF that] \<open>map_of ?G = map_of cl\<close> by simp
  have X: "word_of a (slot_a x) ! pos_a x = word_of a (slot_b x) ! pos_b x"
    if "crossing_of slots x" for x
  proof -
    from that obtain sa sb where ab: "sa \<in> set slots" "sb \<in> set slots"
      "slot_id sa = slot_a x" "slot_id sb = slot_b x"
      "pos_a x < length (cells sa)" "pos_b x < length (cells sb)"
      "cells sa ! pos_a x = at_cell x" "cells sb ! pos_b x = at_cell x"
      unfolding crossing_of_def by blast
    have "map_of cl (at_cell x) = Some (word_of a (slot_a x) ! pos_a x)"
      using S2[OF ab(1) ab(5)] ab(3,7) by simp
    moreover have "map_of cl (at_cell x) = Some (word_of a (slot_b x) ! pos_b x)"
      using S2[OF ab(2) ab(6)] ab(4,8) by simp
    ultimately show ?thesis by simp
  qed
  have A: "fst ` set a = slot_id ` set slots" using dom E(2) by simp
  have B: "\<forall>s \<in> set slots. length (cells s) \<le> length (word_of a (slot_id s)) \<and>
        (\<forall>j < length (cells s).
           map_of ?G (cells s ! j) = Some (word_of a (slot_id s) ! j))"
    using S1 GC by blast
  have C: "\<forall>x \<in> set inters. crossing_of slots x \<longrightarrow>
        word_of a (slot_a x) ! pos_a x = word_of a (slot_b x) ! pos_b x"
    using X by blast
  show ?thesis using A B C G1 G2 G4 by (intro conjI)
qed

lemma find_solutions_valid:
  assumes d: "distinct (map slot_id slots)" and dc: "\<forall>s \<in> set slots. distinct (cells s)"
    and run: "find_solutions_for_grid slots inters phrase cnd t m clock = Inr sols"
    and a: "a \<in> set sols"
  shows "\<exists>E. by_id E = make_by_id slots \<and> set (ids E) = slot_id ` set slots \<and>
           valid_filling E phrase a"
proof -
  from find_solutions_sound[OF d _ run] dc
  obtain E where E: "make_env slots inters cnd t m clock = Inr E"
    "\<forall>a \<in> set sols. valid_filling E phrase a" by blast
  note F = make_env_fields[OF E(1)]
  have "set (ids E) = slot_id ` set slots" using F(2) by (metis mset_eq_setD set_map)
  then show ?thesis using F(1) E(2) a by blast
qed

text \<open>
  C1.  For slots with pairwise distinct ids and pairwise distinct cells within each slot,
  every solution that \<open>find_solutions_for_grid\<close> returns assigns a word to every slot (and
  to nothing else); the words, written cell by cell into \<open>solution_grid\<close>, agree on every
  shared cell, so each cell of the grid carries one letter; at every intersection record that
  is a crossing of the slots (both positions denote the recorded cell) the two contributing
  letters are equal; and the letters of the grid, each cell counted once, are exactly the
  multiset of the phrase letters.
\<close>

theorem solutions_fill_grid:
  assumes "distinct (map slot_id slots)" and "\<forall>s \<in> set slots. distinct (cells s)"
    and "find_solutions_for_grid slots inters phrase cnd t m clock = Inr sols"
    and "a \<in> set sols"
  shows "fst ` set a = slot_id ` set slots \<and>
     (\<forall>s \<in> set slots. length (cells s) \<le> length (word_of a (slot_id s)) \<and>
        (\<forall>j < length (cells s).
           map_of (solution_grid slots a) (cells s ! j) = Some (word_of a (slot_id s) ! j))) \<and>
     (\<forall>x \<in> set inters. crossing_of slots x \<longrightarrow>
        word_of a (slot_a x) ! pos_a x = word_of a (slot_b x) ! pos_b x) \<and>
     distinct (map fst (solution_grid slots a)) \<and>
     fst ` set (solution_grid slots a) = (\<Union>s \<in> set slots. set (cells s)) \<and>
     mset (map snd (solution_grid slots a)) = mset phrase"
proof -
  from find_solutions_valid[OF assms] obtain E where
    "by_id E = make_by_id slots" "set (ids E) = slot_id ` set slots" "valid_filling E phrase a"
    by blast
  then show ?thesis by (rule valid_filling_grid[OF assms(1)])
qed

lemma demo_run:
  "find_solutions_for_grid [demo_H, demo_V] [demo_x] (str ''ABC'') demo_cand 0 5 (\<lambda>_. False)
     = Inr [[(str ''H'', str ''AB''), (str ''V'', str ''AC'')],
            [(str ''H'', str ''AC''), (str ''V'', str ''AB'')]]"
  by code_simp

theorem solutions_fill_grid_witness:
  "find_solutions_for_grid [demo_H, demo_V] [demo_x] (str ''ABC'') demo_cand 0 5 (\<lambda>_. False)
     = Inr [[(str ''H'', str ''AB''), (str ''V'', str ''AC'')],
            [(str ''H'', str ''AC''), (str ''V'', str ''AB'')]] \<and>
   crossing_of [demo_H, demo_V] demo_x \<and>
   word_of [(str ''H'', str ''AB''), (str ''V'', str ''AC'')] (slot_a demo_x) ! pos_a demo_x
     = word_of [(str ''H'', str ''AB''), (str ''V'', str ''AC'')] (slot_b demo_x) ! pos_b demo_x \<and>
   mset (map snd (solution_grid [demo_H, demo_V] [(str ''H'', str ''AB''), (str ''V'', str ''AC'')]))
     = mset (str ''ABC'')"
proof -
  have d: "distinct (map slot_id [demo_H, demo_V])"
    by (simp add: demo_H_def demo_V_def str_def)
  have dc: "\<forall>s \<in> set [demo_H, demo_V]. distinct (cells s)"
    by (simp add: demo_H_def demo_V_def)
  have c: "crossing_of [demo_H, demo_V] demo_x"
    by (simp add: crossing_of_def demo_H_def demo_V_def demo_x_def str_def)
  have m: "[(str ''H'', str ''AB''), (str ''V'', str ''AC'')] \<in>
      set [[(str ''H'', str ''AB''), (str ''V'', str ''AC'')],
           [(str ''H'', str ''AC''), (str ''V'', str ''AB'')]]" by simp
  from solutions_fill_grid[OF d dc demo_run m] c demo_run show ?thesis by simp
qed

section \<open>Duplicate suppression\<close>

lemma place_cells_frame: "place_cells word k cs st = Inr st' \<Longrightarrow> frame_eq st st'"
proof (induction cs arbitrary: k st)
  case Nil
  then show ?case by (simp add: frame_eq_def)
next
  case (Cons c cs)
  then have "place_cells word (Suc k) cs (place_cell c (word ! k) st) = Inr st'"
    by (simp add: place_cells_Cons split: if_splits)
  from Cons.IH[OF this] place_cell_fields(3)[of st c "word ! k"] show ?case
    by (simp add: frame_eq_def)
qed

lemma unplace_cells_frame: "unplace_cells word k cs st = Inr st' \<Longrightarrow> frame_eq st st'"
proof (induction cs arbitrary: k st)
  case Nil
  then show ?case by (simp add: frame_eq_def)
next
  case (Cons c cs)
  then have "unplace_cells word (Suc k) cs (unplace_cell c (word ! k) st) = Inr st'"
    by (simp add: unplace_cells_Cons split: if_splits)
  from Cons.IH[OF this] unplace_cell_frame[of st c "word ! k"] show ?case
    by (simp add: frame_eq_def)
qed

lemma place_frame:
  "place E i w st = Inr st' \<Longrightarrow>
     solutions st' = solutions st \<and> seen_signatures st' = seen_signatures st"
  unfolding place_def
  by (auto simp: bind_err_eq_Inr frame_eq_def dest!: place_cells_frame)

lemma unplace_frame:
  "unplace E i w st = Inr st' \<Longrightarrow>
     solutions st' = solutions st \<and> seen_signatures st' = seen_signatures st"
  unfolding unplace_def
  by (auto simp: bind_err_eq_Inr frame_eq_def split: if_splits dest!: unplace_cells_frame)

lemma sig_inv_cong:
  "solutions s' = solutions s \<Longrightarrow> seen_signatures s' = seen_signatures s \<Longrightarrow>
   sig_inv E s' = sig_inv E s"
  by (simp add: sig_inv_def)

lemma sig_inv_tick [simp]: "sig_inv E (tick st) = sig_inv E st"
  by (simp add: sig_inv_def)

lemma record_solution_sig:
  assumes "sig_inv E st" "record_solution E st = Inr st'"
  shows "sig_inv E st'"
proof (cases "st' = st")
  case True
  then show ?thesis using assms(1) by simp
next
  case False
  then obtain sg where sg: "class_signature (sid_to_class E) (sol st) = Inr sg"
    "sg \<notin> set (seen_signatures st)"
    and st': "st' = st\<lparr>seen_signatures := seen_signatures st @ [sg], solutions := solutions st @ [sol st]\<rparr>"
    using assms(2) unfolding record_solution_def
    by (auto simp: bind_err_eq_Inr split: if_splits)
  then show ?thesis using assms(1) by (simp add: sig_inv_def)
qed

lemma try_words_sig:
  assumes K: "\<And>s s'. sig_inv E s \<Longrightarrow> k s = Inr s' \<Longrightarrow> sig_inv E s'"
  shows "sig_inv E st \<Longrightarrow> try_words E k i ws st = Inr st' \<Longrightarrow> sig_inv E st'"
proof (induction ws arbitrary: st)
  case Nil
  then show ?case by simp
next
  case (Cons w ws)
  show ?case
  proof (cases "expired E (checks st)")
    case True
    then show ?thesis using Cons.prems by auto
  next
    case False
    then obtain ok where ok: "can_place E (tick st) i w = Inr ok"
      using Cons.prems(2) by (auto simp: bind_err_eq_Inr)
    show ?thesis
    proof (cases ok)
      case False
      then have "try_words E k i ws (tick st) = Inr st'"
        using Cons.prems(2) ok \<open>\<not> expired E (checks st)\<close> by simp
      from Cons.IH[OF _ this] Cons.prems(1) show ?thesis by simp
    next
      case True
      from Cons.prems(2) ok True \<open>\<not> expired E (checks st)\<close>
      obtain st1 st2 st3 where st1: "place E i w (tick st) = Inr st1"
        and st2: "k st1 = Inr st2" and st3: "unplace E i w st2 = Inr st3"
        and rest: "(if int (length (solutions st3)) \<ge> max_solutions E then Inr st3
              else if expired E (checks st3) then Inr (tick st3)
              else try_words E k i ws (tick st3)) = Inr st'"
        by (auto simp: bind_err_eq_Inr)
      have "sig_inv E st1" using place_frame[OF st1] Cons.prems(1) sig_inv_cong[of st1 "tick st" E] by simp
      then have "sig_inv E st2" using K st2 by blast
      then have s3: "sig_inv E st3" using unplace_frame[OF st3] sig_inv_cong[of st3 st2 E] by simp
      show ?thesis
      proof (cases "int (length (solutions st3)) \<ge> max_solutions E \<or> expired E (checks st3)")
        case True
        then have "st' = st3 \<or> st' = tick st3" using rest by (auto split: if_splits)
        then show ?thesis using s3 by auto
      next
        case False
        then have "try_words E k i ws (tick st3) = Inr st'" using rest by simp
        from Cons.IH[OF _ this] s3 show ?thesis by simp
      qed
    qed
  qed
qed

lemma dfs_sig: "sig_inv E st \<Longrightarrow> dfs E rest st = Inr st' \<Longrightarrow> sig_inv E st'"
proof (induction rest arbitrary: st st')
  case Nil
  show ?case
  proof (cases "expired E (checks st) \<or> int (length (solutions st)) \<ge> max_solutions E")
    case True
    then have "st' = tick st" using Nil.prems(2) by (auto split: if_splits)
    then show ?thesis using Nil.prems(1) by simp
  next
    case False
    then have "record_solution E (tick st) = Inr st'" using Nil.prems(2) by simp
    from record_solution_sig[OF _ this] Nil.prems(1) show ?thesis by simp
  qed
next
  case (Cons i rest)
  show ?case
  proof (cases "expired E (checks st) \<or> int (length (solutions st)) \<ge> max_solutions E")
    case True
    then have "st' = tick st" using Cons.prems(2) by (auto split: if_splits)
    then show ?thesis using Cons.prems(1) by simp
  next
    case False
    then obtain ws where ws: "try_words E (dfs E rest) i ws (tick st) = Inr st'"
      using Cons.prems(2) by (auto simp: bind_err_eq_Inr)
    show ?thesis
      by (rule try_words_sig[OF _ _ ws]) (use Cons.IH Cons.prems(1) in auto)
  qed
qed

lemma make_env_classes:
  assumes "make_env slots inters cnd t m clock = Inr E"
  shows "\<exists>ec. slot_equivalence_classes slots inters = Inr (ec, sid_to_class E)"
  using assms unfolding make_env_def
  by (auto simp: bind_err_eq_Inr split: prod.splits)

section \<open>The budget invariant\<close>

lemma search_inv_guard:
  assumes "search_inv E phrase st"
  shows "list_all (\<lambda>(ch, v). v \<ge> 0) (budget st)"
proof -
  have I0: "inv0 phrase (pieces_of E (sol st)) st" and nn: "\<And>ch. 0 \<le> counter_get (budget st) ch"
    using assms by (auto simp: search_inv_def)
  have "0 \<le> v" if "(ch, v) \<in> set (budget st)" for ch v
  proof -
    have "map_of (budget st) ch = Some v" using that inv0D(2)[OF I0] by simp
    then show ?thesis using nn[of ch] by (simp add: counter_get_def)
  qed
  then show ?thesis by (auto simp: list_all_iff)
qed

section \<open>Termination without errors\<close>

lemma grows_pool_same: "solutions s' = solutions s \<Longrightarrow> grows_pool E s s'"
  by (simp add: grows_pool_def)

lemma grows_pool_trans: "grows_pool E s s' \<Longrightarrow> grows_pool E s' s'' \<Longrightarrow> grows_pool E s s''"
  unfolding grows_pool_def by fastforce

lemma map_err_total:
  "(\<And>x. x \<in> set xs \<Longrightarrow> \<exists>y. f x = Inr y) \<Longrightarrow> \<exists>ys. map_err f xs = Inr ys"
proof (induction xs)
  case Nil
  then show ?case by simp
next
  case (Cons x xs)
  from Cons.prems[of x] obtain y where y: "f x = Inr y" by auto
  from Cons.IH Cons.prems obtain ys where "map_err f xs = Inr ys" by auto
  then show ?case using y by simp
qed

lemma crossing_ok_total:
  assumes "\<And>e ow. e \<in> set xs \<Longrightarrow> map_of asg (fst e) = Some ow \<Longrightarrow>
             fst (snd e) < length word \<and> snd (snd e) < length ow"
  shows "\<exists>b. crossing_ok word asg xs = Inr b"
  using assms
proof (induction xs)
  case Nil
  show ?case by (intro exI[of _ True]) simp
next
  case (Cons e xs)
  obtain oth ps po where e: "e = (oth, ps, po)" by (cases e) auto
  from Cons.IH Cons.prems obtain b where b: "crossing_ok word asg xs = Inr b" by auto
  show ?case
  proof (cases "map_of asg oth")
    case None
    then show ?thesis using b e by simp
  next
    case (Some ow)
    then have "ps < length word \<and> po < length ow" using Cons.prems[of e ow] e by simp
    then show ?thesis using b e Some by (cases "word ! ps = ow ! po") auto
  qed
qed

lemma need_cells_total:
  "k + length cs \<le> length word \<Longrightarrow> \<exists>r. need_cells word k cs cl need = Inr r"
proof (induction cs arbitrary: k need)
  case Nil
  then show ?case by simp
next
  case (Cons c cs)
  then have k: "k < length word" and r: "Suc k + length cs \<le> length word" by simp_all
  show ?case
  proof (cases "map_of cl c")
    case None
    then show ?thesis using Cons.IH[OF r, of "counter_add (word ! k) 1 need"] k by simp
  next
    case (Some l)
    then show ?thesis using Cons.IH[OF r, of need] k by simp
  qed
qed

lemma dict_get_total: "k \<in> fst ` set d \<Longrightarrow> \<exists>v. dict_get d k = Inr v"
  by (cases "map_of d k") (auto simp: dict_get_def map_of_eq_None_iff)

lemma total_envD:
  assumes "total_env E" "i \<in> set (ids E)"
  shows "\<exists>s. dict_get (by_id E) i = Inr s \<and> distinct (cells s)"
    and "i \<in> fst ` set (sid_to_class E)"
    and "\<exists>ws. dict_get (cand E) i = Inr ws \<and> (\<forall>w \<in> set ws. length (slot_cells E i) \<le> length w)"
    and "\<forall>e \<in> set (list_get (cross E) i). fst (snd e) < length (slot_cells E i) \<and>
        (fst e \<in> set (ids E) \<longrightarrow> snd (snd e) < length (slot_cells E (fst e)))"
proof -
  from assms(1) have "\<forall>i \<in> set (ids E).
     (\<exists>s. dict_get (by_id E) i = Inr s \<and> distinct (cells s)) \<and>
     i \<in> fst ` set (sid_to_class E) \<and>
     (\<exists>ws. dict_get (cand E) i = Inr ws \<and> (\<forall>w \<in> set ws. length (slot_cells E i) \<le> length w)) \<and>
     (\<forall>e \<in> set (list_get (cross E) i). fst (snd e) < length (slot_cells E i) \<and>
        (fst e \<in> set (ids E) \<longrightarrow> snd (snd e) < length (slot_cells E (fst e))))"
    unfolding total_env_def by (rule conjunct2)
  note A = bspec[OF this assms(2)]
  show "\<exists>s. dict_get (by_id E) i = Inr s \<and> distinct (cells s)" by (rule conjunct1[OF A])
  show "i \<in> fst ` set (sid_to_class E)" by (rule conjunct1[OF conjunct2[OF A]])
  show "\<exists>ws. dict_get (cand E) i = Inr ws \<and> (\<forall>w \<in> set ws. length (slot_cells E i) \<le> length w)"
    by (rule conjunct1[OF conjunct2[OF conjunct2[OF A]]])
  show "\<forall>e \<in> set (list_get (cross E) i). fst (snd e) < length (slot_cells E i) \<and>
        (fst e \<in> set (ids E) \<longrightarrow> snd (snd e) < length (slot_cells E (fst e)))"
    by (rule conjunct2[OF conjunct2[OF conjunct2[OF A]]])
qed

lemma can_place_total:
  assumes T: "total_env E" and i: "i \<in> set (ids E)"
    and len: "length (slot_cells E i) \<le> length w"
    and keys: "fst ` set (sol st) \<subseteq> set (ids E)"
    and lens: "\<And>iw. iw \<in> set (sol st) \<Longrightarrow> length (slot_cells E (fst iw)) \<le> length (snd iw)"
  shows "\<exists>b. can_place E st i w = Inr b"
proof -
  note D = total_envD[OF T i]
  from D(1) obtain s where s: "dict_get (by_id E) i = Inr s" by blast
  note cr = D(4)
  have sc: "slot_cells E i = cells s" by (rule dict_get_slot_cells[OF s])
  have "\<exists>v. dict_get (sid_to_class E) i = Inr v" using D(2) by (rule dict_get_total)
  then obtain cls where cls: "dict_get (sid_to_class E) i = Inr cls" by (elim exE)
  have "\<exists>ys. map_err (\<lambda>j. bind_err (dict_get (sid_to_class E) j) (\<lambda>c. Inr (j, c))) (ids E) = Inr ys"
  proof (rule map_err_total)
    fix j assume "j \<in> set (ids E)"
    then have "j \<in> fst ` set (sid_to_class E)" by (rule total_envD(2)[OF T])
    then have "\<exists>v. dict_get (sid_to_class E) j = Inr v" by (rule dict_get_total)
    then obtain c where "dict_get (sid_to_class E) j = Inr c" by (elim exE)
    then show "\<exists>y. bind_err (dict_get (sid_to_class E) j) (\<lambda>c. Inr (j, c)) = Inr y" by simp
  qed
  then obtain classed where
    classed: "map_err (\<lambda>j. bind_err (dict_get (sid_to_class E) j) (\<lambda>c. Inr (j, c))) (ids E) = Inr classed"
    by blast
  have "\<exists>b. crossing_ok w (sol st) (list_get (cross E) i) = Inr b"
  proof (rule crossing_ok_total)
    fix e ow assume e: "e \<in> set (list_get (cross E) i)" "map_of (sol st) (fst e) = Some ow"
    then have m: "(fst e, ow) \<in> set (sol st)" by (auto dest: map_of_SomeD)
    then have "fst e \<in> set (ids E)" using keys by force
    then have "snd (snd e) < length (slot_cells E (fst e))" "fst (snd e) < length (slot_cells E i)"
      using cr e(1) by blast+
    moreover have "length (slot_cells E (fst e)) \<le> length ow" using lens[OF m] by simp
    ultimately show "fst (snd e) < length w \<and> snd (snd e) < length ow" using len by simp
  qed
  then obtain ok where ok: "crossing_ok w (sol st) (list_get (cross E) i) = Inr ok" by blast
  from need_cells_total[of 0 "cells s" w "cell_letter st" "[]"] len sc
  obtain nd where nd: "need_cells w 0 (cells s) (cell_letter st) [] = Inr nd" by auto
  have "\<exists>b. (case nd of None \<Rightarrow> Inr False
           | Some need \<Rightarrow> Inr (list_all (\<lambda>(ch, cnt). \<not> cnt > counter_get (budget st) ch) need))
          = (Inr b :: py_error + bool)"
    by (cases nd) auto
  then obtain b3 where b3: "(case nd of None \<Rightarrow> Inr False
           | Some need \<Rightarrow> Inr (list_all (\<lambda>(ch, cnt). \<not> cnt > counter_get (budget st) ch) need))
          = (Inr b3 :: py_error + bool)" by blast
  have "can_place E st i w =
     (if \<not> symmetry_ok i w (sol st) (map fst (filter (\<lambda>(j, c). c = cls) classed)) then Inr False
      else if \<not> ok then Inr False else Inr b3)"
    unfolding can_place_def by (simp add: s cls classed ok nd b3 Let_def)
  then show ?thesis by auto
qed

lemma class_buckets_total:
  "(\<And>iw. iw \<in> set a \<Longrightarrow> fst iw \<in> fst ` set s2c) \<Longrightarrow> \<exists>r. class_buckets s2c a b = Inr r"
proof (induction a arbitrary: b)
  case Nil
  then show ?case by simp
next
  case (Cons iw a)
  obtain i w where iw: "iw = (i, w)" by (cases iw) auto
  have "i \<in> fst ` set s2c" using Cons.prems[of iw] iw by simp
  then have "\<exists>v. dict_get s2c i = Inr v" by (rule dict_get_total)
  then obtain c where c: "dict_get s2c i = Inr c" by (elim exE)
  from Cons.IH[of "dict_append c w b"] Cons.prems
  obtain r where "class_buckets s2c a (dict_append c w b) = Inr r" by auto
  then show ?case using c iw by simp
qed

lemma record_solution_total:
  assumes "\<And>iw. iw \<in> set (sol st) \<Longrightarrow> fst iw \<in> fst ` set (sid_to_class E)"
    and "pool_inv E (sol st)"
  shows "\<exists>st'. record_solution E st = Inr st' \<and> grows_pool E st st'"
proof -
  have "\<exists>r. class_buckets (sid_to_class E) (sol st) [] = Inr r"
    by (rule class_buckets_total) (rule assms(1))
  then obtain sg where sg: "class_signature (sid_to_class E) (sol st) = Inr sg"
    by (auto simp: class_signature_def)
  show ?thesis
  proof (cases "budget_exact st \<and> sg \<notin> set (seen_signatures st)")
    case True
    then have "record_solution E st = Inr (st\<lparr>seen_signatures := seen_signatures st @ [sg],
                       solutions := solutions st @ [sol st]\<rparr>)"
      by (simp add: record_solution_def sg)
    moreover have "grows_pool E st (st\<lparr>seen_signatures := seen_signatures st @ [sg],
                       solutions := solutions st @ [sol st]\<rparr>)"
      using assms(2) by (simp add: grows_pool_def)
    ultimately show ?thesis by blast
  next
    case False
    then have "record_solution E st = Inr st" by (auto simp: record_solution_def sg)
    then show ?thesis by (simp add: grows_pool_same)
  qed
qed

lemma pool_inv_snoc: "pool_inv E a \<Longrightarrow> w \<in> set (list_get (cand E) i) \<Longrightarrow> pool_inv E (a @ [(i, w)])"
  by (simp add: pool_inv_def)

lemma search_inv_lens:
  "search_inv E phrase st \<Longrightarrow> iw \<in> set (sol st) \<Longrightarrow> length (slot_cells E (fst iw)) \<le> length (snd iw)"
  by (simp add: search_inv_def)

lemma try_words_total:
  assumes T: "total_env E" and i: "i \<in> set (ids E)" and iD: "i \<notin> D" and Dsub: "D \<subseteq> set (ids E)"
    and K: "\<And>s. search_inv E phrase s \<Longrightarrow> pool_inv E (sol s) \<Longrightarrow> fst ` set (sol s) = insert i D \<Longrightarrow>
              \<exists>s'. k s = Inr s' \<and> grows_pool E s s'"
    and Ks: "\<And>s s'. search_inv E phrase s \<Longrightarrow> fst ` set (sol s) = insert i D \<Longrightarrow> k s = Inr s' \<Longrightarrow>
                search_inv E phrase s' \<and> sol s' = sol s \<and> grows E phrase s s'"
    and pool: "\<And>w. w \<in> set ws \<Longrightarrow> w \<in> set (list_get (cand E) i) \<and> length (slot_cells E i) \<le> length w"
  shows "search_inv E phrase st \<Longrightarrow> pool_inv E (sol st) \<Longrightarrow> fst ` set (sol st) = D \<Longrightarrow>
           \<exists>st'. try_words E k i ws st = Inr st' \<and> grows_pool E st st'"
  using pool
proof (induction ws arbitrary: st)
  case Nil
  then show ?case by (simp add: grows_pool_same)
next
  case (Cons w ws)
  from total_envD(1)[OF T i] obtain sl where sl: "dict_get (by_id E) i = Inr sl" "distinct (cells sl)"
    by blast
  have pw: "w \<in> set (list_get (cand E) i)" "length (slot_cells E i) \<le> length w"
    using Cons.prems(4)[of w] by simp_all
  have pws: "\<And>w'. w' \<in> set ws \<Longrightarrow> w' \<in> set (list_get (cand E) i) \<and> length (slot_cells E i) \<le> length w'"
    using Cons.prems(4) by simp
  show ?case
  proof (cases "expired E (checks st)")
    case True
    then have "try_words E k i (w # ws) st = Inr (tick st)" by simp
    then show ?thesis by (simp add: grows_pool_same)
  next
    case ne: False
    have It: "search_inv E phrase (tick st)" using Cons.prems(1) by simp
    have "\<exists>b. can_place E (tick st) i w = Inr b"
    proof (rule can_place_total[OF T i pw(2)])
      show "fst ` set (sol (tick st)) \<subseteq> set (ids E)" using Cons.prems(3) Dsub by simp
      show "\<And>iw. iw \<in> set (sol (tick st)) \<Longrightarrow> length (slot_cells E (fst iw)) \<le> length (snd iw)"
        using search_inv_lens[OF It] by simp
    qed
    then obtain ok where ok: "can_place E (tick st) i w = Inr ok" by (elim exE)
    show ?thesis
    proof (cases ok)
      case False
      from Cons.IH[of "tick st", OF _ _ _ pws] Cons.prems(1,2,3)
      obtain st' where st': "try_words E k i ws (tick st) = Inr st'" "grows_pool E (tick st) st'"
        by auto
      have "try_words E k i (w # ws) st = Inr st'" using ne ok False st'(1) by simp
      moreover have "grows_pool E st st'" using st'(2) by (simp add: grows_pool_def)
      ultimately show ?thesis by blast
    next
      case True
      have fr: "i \<notin> fst ` set (sol (tick st))" using Cons.prems(3) iD by simp
      from place_inv[OF It fr sl] ok True
      obtain st1 where st1: "place E i w (tick st) = Inr st1" "search_inv E phrase st1"
        "sol st1 = sol st @ [(i, w)]" "solutions st1 = solutions st" by auto
      have d1: "fst ` set (sol st1) = insert i D" using st1(3) Cons.prems(3) by auto
      have p1: "pool_inv E (sol st1)" using Cons.prems(2) pw(1) by (simp add: st1(3) pool_inv_snoc)
      from K[OF st1(2) p1 d1] obtain st2 where st2: "k st1 = Inr st2" "grows_pool E st1 st2" by blast
      from Ks[OF st1(2) d1 st2(1)]
      have s2: "search_inv E phrase st2" "sol st2 = sol st1" by auto
      have mem: "(i, w) \<in> set (sol st2)" using s2(2) st1(3) by simp
      from unplace_inv[OF s2(1) mem sl]
      obtain st3 where st3: "unplace E i w st2 = Inr st3" "search_inv E phrase st3"
        "sol st3 = AList.delete i (sol st2)" "solutions st3 = solutions st2" by auto
      have sol3: "sol st3 = sol st"
        using st3(3) s2(2) st1(3) Cons.prems(3) iD
        by (metis delete_update_fresh update_fresh_append)
      have g3: "grows_pool E st st3"
        using st2(2) st1(4) st3(4) by (simp add: grows_pool_def)
      have unf: "try_words E k i (w # ws) st =
          (if int (length (solutions st3)) \<ge> max_solutions E then Inr st3
              else if expired E (checks st3) then Inr (tick st3)
              else try_words E k i ws (tick st3))"
        using ne ok True st1(1) st2(1) st3(1) by simp
      show ?thesis
      proof (cases "int (length (solutions st3)) \<ge> max_solutions E")
        case True
        then show ?thesis using unf g3 by auto
      next
        case nmax: False
        show ?thesis
        proof (cases "expired E (checks st3)")
          case True
          then have "try_words E k i (w # ws) st = Inr (tick st3)" using unf nmax by simp
          moreover have "grows_pool E st (tick st3)" using g3 by (simp add: grows_pool_def)
          ultimately show ?thesis by blast
        next
          case False
          from Cons.IH[of "tick st3", OF _ _ _ pws] st3(2) sol3 Cons.prems(2,3)
          obtain st' where st': "try_words E k i ws (tick st3) = Inr st'" "grows_pool E (tick st3) st'"
            by auto
          have "try_words E k i (w # ws) st = Inr st'" using unf nmax False st'(1) by simp
          moreover have "grows_pool E st3 st'" using st'(2) by (simp add: grows_pool_def)
          ultimately show ?thesis using g3 grows_pool_trans by blast
        qed
      qed
    qed
  qed
qed

lemma dict_get_list_get: "dict_get d k = Inr v \<Longrightarrow> list_get d k = v"
  by (auto simp: dict_get_def list_get_def split: option.splits)

lemma dfs_total:
  assumes T: "total_env E"
  shows "set rest \<subseteq> set (ids E) \<Longrightarrow> distinct rest \<Longrightarrow> search_inv E phrase st \<Longrightarrow>
     pool_inv E (sol st) \<Longrightarrow> fst ` set (sol st) = set (ids E) - set rest \<Longrightarrow>
     \<exists>st'. dfs E rest st = Inr st' \<and> grows_pool E st st'"
proof (induction rest arbitrary: st)
  case Nil
  show ?case
  proof (cases "expired E (checks st) \<or> int (length (solutions st)) \<ge> max_solutions E")
    case True
    then have "dfs E [] st = Inr (tick st)" by auto
    then show ?thesis by (simp add: grows_pool_same)
  next
    case False
    have "\<exists>st'. record_solution E (tick st) = Inr st' \<and> grows_pool E (tick st) st'"
    proof (rule record_solution_total)
      fix iw assume "iw \<in> set (sol (tick st))"
      then have "fst iw \<in> set (ids E)" using Nil.prems(5) by force
      then show "fst iw \<in> fst ` set (sid_to_class E)" by (rule total_envD(2)[OF T])
    next
      show "pool_inv E (sol (tick st))" using Nil.prems(4) by simp
    qed
    then obtain st' where st': "record_solution E (tick st) = Inr st'" "grows_pool E (tick st) st'"
      by blast
    have "dfs E [] st = Inr st'" using False st'(1) by simp
    moreover have "grows_pool E st st'" using st'(2) by (simp add: grows_pool_def)
    ultimately show ?thesis by blast
  qed
next
  case (Cons i rest)
  show ?case
  proof (cases "expired E (checks st) \<or> int (length (solutions st)) \<ge> max_solutions E")
    case True
    then have "dfs E (i # rest) st = Inr (tick st)" by auto
    then show ?thesis by (simp add: grows_pool_same)
  next
    case False
    have i: "i \<in> set (ids E)" "i \<notin> set rest" using Cons.prems(1,2) by auto
    from total_envD(3)[OF T i(1)] obtain ws where
      ws: "dict_get (cand E) i = Inr ws" "\<forall>w \<in> set ws. length (slot_cells E i) \<le> length w" by blast
    define D where "D = set (ids E) - set (i # rest)"
    have insD: "insert i D = set (ids E) - set rest" using i by (auto simp: D_def)
    have wf: "\<And>j. j \<in> set (ids E) \<Longrightarrow> \<exists>s. dict_get (by_id E) j = Inr s \<and> distinct (cells s)"
      by (rule total_envD(1)[OF T])
    have "\<exists>st'. try_words E (dfs E rest) i ws (tick st) = Inr st' \<and> grows_pool E (tick st) st'"
    proof (rule try_words_total[OF T i(1), where D = D and phrase = phrase])
      show "i \<notin> D" by (simp add: D_def)
      show "D \<subseteq> set (ids E)" by (auto simp: D_def)
      show "search_inv E phrase (tick st)" using Cons.prems(3) by simp
      show "pool_inv E (sol (tick st))" using Cons.prems(4) by simp
      show "fst ` set (sol (tick st)) = D" using Cons.prems(5) by (simp add: D_def)
      show "\<exists>s'. dfs E rest s = Inr s' \<and> grows_pool E s s'"
        if "search_inv E phrase s" "pool_inv E (sol s)" "fst ` set (sol s) = insert i D" for s
        using Cons.IH[OF _ _ that(1,2)] that(3) insD Cons.prems(1,2) by simp
      show "search_inv E phrase s' \<and> sol s' = sol s \<and> grows E phrase s s'"
        if "search_inv E phrase s" "fst ` set (sol s) = insert i D" "dfs E rest s = Inr s'" for s s'
        using dfs_sound[OF wf _ _ that(1) _ that(3)] that(2) insD Cons.prems(1,2) by simp
      show "w \<in> set (list_get (cand E) i) \<and> length (slot_cells E i) \<le> length w" if "w \<in> set ws" for w
        using that ws by (simp add: dict_get_list_get)
    qed
    then obtain st' where st': "try_words E (dfs E rest) i ws (tick st) = Inr st'"
      "grows_pool E (tick st) st'" by blast
    have "dfs E (i # rest) st = Inr st'" using False st'(1) ws(1) by simp
    moreover have "grows_pool E st st'" using st'(2) by (simp add: grows_pool_def)
    ultimately show ?thesis by blast
  qed
qed

lemma make_by_id_keys: "fst ` set (make_by_id slots) = slot_id ` set slots"
proof -
  have "fst ` set (fold (\<lambda>s. AList.update (slot_id s) s) xs d) = fst ` set d \<union> slot_id ` set xs"
    for xs :: "slot list" and d
    by (induction xs arbitrary: d) (auto simp: dom_update)
  then show ?thesis by (simp add: make_by_id_def)
qed

lemma touches_of_total:
  "(\<And>x. x \<in> set xs \<Longrightarrow> slot_a x \<in> fst ` set byid \<and> slot_b x \<in> fst ` set byid) \<Longrightarrow>
   \<exists>ts. touches_of byid s xs = Inr ts"
proof (induction xs)
  case Nil
  then show ?case by simp
next
  case (Cons x xs)
  from Cons.IH Cons.prems obtain ts where ts: "touches_of byid s xs = Inr ts" by auto
  have "\<exists>v. dict_get byid (slot_a x) = Inr v" "\<exists>v. dict_get byid (slot_b x) = Inr v"
    using Cons.prems[of x] by (simp_all add: dict_get_total)
  then obtain va vb where "dict_get byid (slot_a x) = Inr va" "dict_get byid (slot_b x) = Inr vb"
    by (elim exE)
  then show ?case using ts by simp
qed

lemma build_patterns_total:
  assumes "\<And>x. x \<in> set inters \<Longrightarrow> slot_a x \<in> fst ` set byid \<and> slot_b x \<in> fst ` set byid"
  shows "\<exists>pats'. build_patterns byid inters ss pats = Inr pats' \<and>
           fst ` set pats' = fst ` set pats \<union> slot_id ` set ss"
proof (induction ss arbitrary: pats)
  case Nil
  then show ?case by simp
next
  case (Cons s ss)
  from touches_of_total[of inters byid "slot_id s"] assms
  obtain ts where ts: "touches_of byid (slot_id s) inters = Inr ts" by blast
  from Cons.IH[of "AList.update (slot_id s) (orient s, slen s, sort ts) pats"]
  obtain pats' where p: "build_patterns byid inters ss
       (AList.update (slot_id s) (orient s, slen s, sort ts) pats) = Inr pats'"
    "fst ` set pats' = fst ` set (AList.update (slot_id s) (orient s, slen s, sort ts) pats)
        \<union> slot_id ` set ss" by blast
  have "build_patterns byid inters (s # ss) pats = Inr pats'" using ts p(1) by simp
  moreover have "fst ` set pats' = fst ` set pats \<union> slot_id ` set (s # ss)"
    using p(2) by (auto simp: dom_update)
  ultimately show ?case by blast
qed

lemma members_update:
  "members (AList.update k (list_get d k @ [v]) d) = insert v (members d)"
proof (induction d)
  case Nil
  then show ?case by (simp add: members_def list_get_def)
next
  case (Cons p d)
  obtain k' vs where p: "p = (k', vs)" by (cases p)
  show ?case
  proof (cases "k' = k")
    case True
    then show ?thesis using p by (auto simp: members_def list_get_def)
  next
    case False
    have lg: "list_get ((k', vs) # d) k = list_get d k" using False by (simp add: list_get_def)
    have "members (AList.update k (list_get (p # d) k @ [v]) (p # d))
        = set vs \<union> members (AList.update k (list_get d k @ [v]) d)"
      using False p by (simp add: lg members_def)
    also have "\<dots> = set vs \<union> insert v (members d)" using Cons.IH by simp
    also have "\<dots> = insert v (members (p # d))" using p by (auto simp: members_def)
    finally show ?thesis .
  qed
qed

lemma members_dict_append: "members (dict_append k v d) = insert v (members d)"
  using members_update[of k d v] by (simp add: dict_append_def list_get_def)

lemma members_groups:
  "members (fold (\<lambda>(i, pat). dict_append pat i) ps d) = members d \<union> fst ` set ps"
proof (induction ps arbitrary: d)
  case Nil
  then show ?case by simp
next
  case (Cons p ps)
  obtain i pat where p: "p = (i, pat)" by (cases p)
  show ?case using Cons.IH[of "dict_append pat i d"] p by (auto simp: members_dict_append)
qed

lemma members_sorted:
  "members (sort_key f (map (\<lambda>(pat, is). (pat, sort is)) groups)) = members groups"
  by (auto simp: members_def)

lemma s2c_keys_inner: "fst ` set (fold (\<lambda>i'. AList.update i' n) is d) = fst ` set d \<union> set is"
  by (induction "is" arbitrary: d) (auto simp: dom_update)

lemma s2c_keys:
  "fst ` set (fold (\<lambda>(i, (_, is)) d. fold (\<lambda>i'. AList.update i' i) is d) xs d0)
     = fst ` set d0 \<union> (\<Union>e \<in> set xs. set (snd (snd e)))"
proof (induction xs arbitrary: d0)
  case Nil
  then show ?case by simp
next
  case (Cons e xs)
  obtain n pat "is" where e: "e = (n, (pat, is))" by (cases e) auto
  show ?case using Cons.IH[of "fold (\<lambda>i'. AList.update i' n) is d0"] e
    by (auto simp: s2c_keys_inner)
qed

lemma enumerate_members: "(\<Union>e \<in> set (enumerate n xs). set (snd (snd e))) = members xs"
proof -
  have "snd ` set (enumerate n xs) = set xs"
    by (metis list.set_map map_snd_enumerate)
  then show ?thesis unfolding members_def by (metis (no_types) image_image UN_simps(10) SUP_image comp_apply)
qed

lemma members_Nil [simp]: "members [] = {}"
  by (simp add: members_def)

lemma make_env_cross:
  assumes "make_env slots inters cnd t m clock = Inr E"
  shows "cross E = make_cross inters"
proof -
  from assms obtain ec s2c ordered where
    "order_slots slots cnd inters = Inr ordered"
    and E: "E = \<lparr>by_id = make_by_id slots, cross = make_cross inters, sid_to_class = s2c,
            ids = map slot_id ordered, cand = cnd, max_solutions = m,
            expired = (\<lambda>n. t > 0 \<and> clock n)\<rparr>"
    unfolding make_env_def by (auto simp: bind_err_eq_Inr split: prod.splits)
  then show ?thesis by simp
qed

lemma slot_equivalence_classes_total:
  assumes "\<And>x. x \<in> set inters \<Longrightarrow>
             slot_a x \<in> slot_id ` set slots \<and> slot_b x \<in> slot_id ` set slots"
  shows "\<exists>ec s2c. slot_equivalence_classes slots inters = Inr (ec, s2c) \<and>
           fst ` set s2c = slot_id ` set slots"
proof -
  from build_patterns_total[of inters "make_by_id slots" slots "[]"] assms
  obtain pats where pats: "build_patterns (make_by_id slots) inters slots [] = Inr pats"
    "fst ` set pats = slot_id ` set slots"
    by (auto simp: make_by_id_keys)
  define groups where "groups = fold (\<lambda>(i, pat). dict_append pat i) pats []"
  define ec where "ec = sort_key class_key (map (\<lambda>(pat, is). (pat, sort is)) groups)"
  define s2c where "s2c = fold (\<lambda>(i, (_, is)) d. fold (\<lambda>i'. AList.update i' i) is d)
               (enumerate 0 ec) ([] :: (pystr \<times> nat) list)"
  have "slot_equivalence_classes slots inters = Inr (ec, s2c)"
    by (simp add: slot_equivalence_classes_def pats(1) groups_def ec_def s2c_def Let_def)
  moreover have "members groups = slot_id ` set slots"
    unfolding groups_def by (simp add: members_groups pats(2))
  then have "members ec = slot_id ` set slots"
    unfolding ec_def by (simp add: members_sorted)
  then have "fst ` set s2c = slot_id ` set slots"
    unfolding s2c_def by (simp add: s2c_keys enumerate_members)
  ultimately show ?thesis by blast
qed

lemma order_slots_total:
  assumes "\<And>s. s \<in> set slots \<Longrightarrow> slot_id s \<in> fst ` set cnd"
  shows "\<exists>ordered. order_slots slots cnd inters = Inr ordered"
proof -
  let ?f = "\<lambda>s. bind_err (dict_get cnd (slot_id s)) (\<lambda>ws.
              Inr ((length ws, - counter_get (fold (\<lambda>x d. counter_add (slot_b x) 1
                 (counter_add (slot_a x) 1 d)) inters []) (slot_id s), slen s), s))"
  have "\<exists>ys. map_err ?f slots = Inr ys"
  proof (rule map_err_total)
    fix s assume "s \<in> set slots"
    then have "\<exists>v. dict_get cnd (slot_id s) = Inr v" using assms by (simp add: dict_get_total)
    then obtain v where "dict_get cnd (slot_id s) = Inr v" by (elim exE)
    then show "\<exists>y. ?f s = Inr y" by simp
  qed
  then obtain ys where "map_err ?f slots = Inr ys" by (elim exE)
  then show ?thesis by (simp add: order_slots_def Let_def)
qed

lemma list_get_dict_append:
  "list_get (dict_append k v d) i = (if i = k then list_get d k @ [v] else list_get d i)"
  by (simp add: list_get_def dict_append_def update_conv')

lemma make_cross_entries:
  assumes "e \<in> set (list_get (make_cross inters) i)"
  shows "\<exists>x \<in> set inters. (slot_a x = i \<and> e = (slot_b x, pos_a x, pos_b x)) \<or>
                           (slot_b x = i \<and> e = (slot_a x, pos_b x, pos_a x))"
proof -
  let ?Q = "\<lambda>i e. \<exists>x \<in> set inters. (slot_a x = i \<and> e = (slot_b x, pos_a x, pos_b x)) \<or>
                           (slot_b x = i \<and> e = (slot_a x, pos_b x, pos_a x))"
  let ?P = "\<lambda>d. \<forall>i e. e \<in> set (list_get d i) \<longrightarrow> ?Q i e"
  have "?P (make_cross inters)"
    unfolding make_cross_def
  proof (rule fold_invariant[where Q = "\<lambda>x. x \<in> set inters"])
    show "\<And>x. x \<in> set inters \<Longrightarrow> x \<in> set inters" .
    show "?P []" by (simp add: list_get_def)
    show "?P (dict_append (slot_b x) (slot_a x, pos_b x, pos_a x)
                   (dict_append (slot_a x) (slot_b x, pos_a x, pos_b x) d))"
      if "x \<in> set inters" "?P d" for x d
    proof (intro allI impI)
      fix i e
      assume "e \<in> set (list_get (dict_append (slot_b x) (slot_a x, pos_b x, pos_a x)
                   (dict_append (slot_a x) (slot_b x, pos_a x, pos_b x) d)) i)"
      then consider "e \<in> set (list_get d i)"
        | "slot_a x = i" "e = (slot_b x, pos_a x, pos_b x)"
        | "slot_b x = i" "e = (slot_a x, pos_b x, pos_a x)"
        by (auto simp: list_get_dict_append split: if_splits)
      then show "?Q i e"
      proof cases
        case 1
        then show ?thesis using that(2) by blast
      next
        case 2
        then show ?thesis using that(1) by blast
      next
        case 3
        then show ?thesis using that(1) by blast
      qed
    qed
  qed
  then show ?thesis using assms by blast
qed

lemma well_formedD:
  assumes "well_formed slots inters cnd"
  shows "distinct (map slot_id slots)"
    and "\<And>s. s \<in> set slots \<Longrightarrow> distinct (cells s)"
    and "\<And>x. x \<in> set inters \<Longrightarrow> crossing_of slots x"
    and "\<And>s. s \<in> set slots \<Longrightarrow> \<exists>ws. map_of cnd (slot_id s) = Some ws \<and>
        (\<forall>w \<in> set ws. length (cells s) \<le> length w)"
proof -
  note A = assms[unfolded well_formed_def]
  show "distinct (map slot_id slots)" by (rule conjunct1[OF A])
  show "\<And>s. s \<in> set slots \<Longrightarrow> distinct (cells s)"
    by (rule bspec[OF conjunct1[OF conjunct2[OF A]]])
  show "\<And>x. x \<in> set inters \<Longrightarrow> crossing_of slots x"
    by (rule bspec[OF conjunct1[OF conjunct2[OF conjunct2[OF A]]]])
  show "\<And>s. s \<in> set slots \<Longrightarrow> \<exists>ws. map_of cnd (slot_id s) = Some ws \<and>
        (\<forall>w \<in> set ws. length (cells s) \<le> length w)"
    by (rule bspec[OF conjunct2[OF conjunct2[OF conjunct2[OF A]]]])
qed

lemma well_formed_total_env:
  assumes W: "well_formed slots inters cnd"
    and E: "make_env slots inters cnd t m clock = Inr E"
  shows "total_env E"
proof -
  note d = well_formedD(1)[OF W] and dc = well_formedD(2)[OF W]
    and cr = well_formedD(3)[OF W] and cw = well_formedD(4)[OF W]
  note F = make_env_fields[OF E]
  from make_env_classes[OF E] obtain ec where
    sec: "slot_equivalence_classes slots inters = Inr (ec, sid_to_class E)" by (elim exE)
  have ids: "set (ids E) = slot_id ` set slots" "distinct (ids E)"
    using F(2) d by (metis mset_eq_setD set_map, metis mset_eq_imp_distinct_iff)
  have ab: "slot_a x \<in> slot_id ` set slots \<and> slot_b x \<in> slot_id ` set slots"
    if "x \<in> set inters" for x
    using cr[OF that] unfolding crossing_of_def by force
  have "\<exists>ec s2c. slot_equivalence_classes slots inters = Inr (ec, s2c) \<and>
           fst ` set s2c = slot_id ` set slots"
    by (rule slot_equivalence_classes_total) (rule ab)
  then obtain ec' s2c' where sec': "slot_equivalence_classes slots inters = Inr (ec', s2c')"
    "fst ` set s2c' = slot_id ` set slots" by (elim exE conjE)
  have "s2c' = sid_to_class E" using sec sec'(1) by simp
  then have s2k: "fst ` set (sid_to_class E) = slot_id ` set slots" using sec'(2) by simp
  have look: "dict_get (by_id E) (slot_id s) = Inr s" "slot_cells E (slot_id s) = cells s"
    if "s \<in> set slots" for s
    using make_by_id_lookup[OF d that] by (simp_all add: F(1) dict_get_def slot_cells_def)
  have crossE: "cross E = make_cross inters" by (rule make_env_cross[OF E])
  have main: "(\<exists>s. dict_get (by_id E) i = Inr s \<and> distinct (cells s)) \<and>
     i \<in> fst ` set (sid_to_class E) \<and>
     (\<exists>ws. dict_get (cand E) i = Inr ws \<and> (\<forall>w \<in> set ws. length (slot_cells E i) \<le> length w)) \<and>
     (\<forall>e \<in> set (list_get (cross E) i). fst (snd e) < length (slot_cells E i) \<and>
        (fst e \<in> set (ids E) \<longrightarrow> snd (snd e) < length (slot_cells E (fst e))))"
    if "i \<in> set (ids E)" for i
  proof -
    from that ids(1) obtain s where s: "s \<in> set slots" "i = slot_id s" by auto
    have A: "\<exists>s. dict_get (by_id E) i = Inr s \<and> distinct (cells s)"
      using look(1)[OF s(1)] dc[OF s(1)] s(2) by blast
    have B: "i \<in> fst ` set (sid_to_class E)" using s s2k by simp
    from cw[OF s(1)] obtain ws where ws: "map_of cnd (slot_id s) = Some ws"
      "\<forall>w \<in> set ws. length (cells s) \<le> length w" by blast
    have C: "\<exists>ws. dict_get (cand E) i = Inr ws \<and> (\<forall>w \<in> set ws. length (slot_cells E i) \<le> length w)"
      using ws look(2)[OF s(1)] s(2) by (simp add: F(3) dict_get_def)
    have D: "\<forall>e \<in> set (list_get (cross E) i). fst (snd e) < length (slot_cells E i) \<and>
        (fst e \<in> set (ids E) \<longrightarrow> snd (snd e) < length (slot_cells E (fst e)))"
    proof
      fix e assume "e \<in> set (list_get (cross E) i)"
      then obtain x where x: "x \<in> set inters"
        "(slot_a x = i \<and> e = (slot_b x, pos_a x, pos_b x)) \<or>
         (slot_b x = i \<and> e = (slot_a x, pos_b x, pos_a x))"
        using make_cross_entries[of e inters i] by (auto simp: crossE)
      from cr[OF x(1)] obtain sa sb where sab: "sa \<in> set slots" "sb \<in> set slots"
        "slot_id sa = slot_a x" "slot_id sb = slot_b x"
        "pos_a x < length (cells sa)" "pos_b x < length (cells sb)"
        unfolding crossing_of_def by blast
      have ca: "slot_cells E (slot_a x) = cells sa" using look(2)[OF sab(1)] sab(3) by simp
      have cb: "slot_cells E (slot_b x) = cells sb" using look(2)[OF sab(2)] sab(4) by simp
      show "fst (snd e) < length (slot_cells E i) \<and>
        (fst e \<in> set (ids E) \<longrightarrow> snd (snd e) < length (slot_cells E (fst e)))"
        using x(2) ca cb sab(5,6) by auto
    qed
    show ?thesis by (intro conjI A B C D)
  qed
  have all: "\<forall>i \<in> set (ids E).
     (\<exists>s. dict_get (by_id E) i = Inr s \<and> distinct (cells s)) \<and>
     i \<in> fst ` set (sid_to_class E) \<and>
     (\<exists>ws. dict_get (cand E) i = Inr ws \<and> (\<forall>w \<in> set ws. length (slot_cells E i) \<le> length w)) \<and>
     (\<forall>e \<in> set (list_get (cross E) i). fst (snd e) < length (slot_cells E i) \<and>
        (fst e \<in> set (ids E) \<longrightarrow> snd (snd e) < length (slot_cells E (fst e))))"
  proof (rule ballI)
    fix i assume "i \<in> set (ids E)"
    then show "(\<exists>s. dict_get (by_id E) i = Inr s \<and> distinct (cells s)) \<and>
     i \<in> fst ` set (sid_to_class E) \<and>
     (\<exists>ws. dict_get (cand E) i = Inr ws \<and> (\<forall>w \<in> set ws. length (slot_cells E i) \<le> length w)) \<and>
     (\<forall>e \<in> set (list_get (cross E) i). fst (snd e) < length (slot_cells E i) \<and>
        (fst e \<in> set (ids E) \<longrightarrow> snd (snd e) < length (slot_cells E (fst e))))"
      by (rule main)
  qed
  show ?thesis unfolding total_env_def using ids(2) all by (rule conjI)
qed

lemma well_formed_make_env:
  assumes W: "well_formed slots inters cnd"
  shows "\<exists>E. make_env slots inters cnd t m clock = Inr E"
proof -
  note cr = well_formedD(3)[OF W] and cw = well_formedD(4)[OF W]
  have ab: "slot_a x \<in> slot_id ` set slots \<and> slot_b x \<in> slot_id ` set slots"
    if "x \<in> set inters" for x
    using cr[OF that] unfolding crossing_of_def by force
  have "\<exists>ec s2c. slot_equivalence_classes slots inters = Inr (ec, s2c) \<and>
           fst ` set s2c = slot_id ` set slots"
    by (rule slot_equivalence_classes_total) (rule ab)
  then obtain ec s2c where sec: "slot_equivalence_classes slots inters = Inr (ec, s2c)"
    by (elim exE conjE)
  have "\<exists>ordered. order_slots slots cnd inters = Inr ordered"
  proof (rule order_slots_total)
    fix s assume "s \<in> set slots"
    from cw[OF this] obtain ws where "map_of cnd (slot_id s) = Some ws" by blast
    then show "slot_id s \<in> fst ` set cnd" by (metis domI dom_map_of_conv_image_fst)
  qed
  then obtain ordered where "order_slots slots cnd inters = Inr ordered" by (elim exE)
  then show ?thesis using sec by (simp add: make_env_def)
qed

lemma valid_pool_exact:
  assumes d: "distinct (map slot_id slots)"
    and E: "by_id E = make_by_id slots" "set (ids E) = slot_id ` set slots" "cand E = cnd"
    and vf: "valid_filling E phrase a" and pl: "pool_inv E a"
  shows "exact_filling slots cnd phrase a"
proof -
  note G = valid_filling_grid[OF d E(1,2) vf, of "[]"]
  note V = vf[unfolded valid_filling_def]
  have da: "distinct (map fst a)" by (rule conjunct1[OF conjunct2[OF V]])
  have dom: "fst ` set a = slot_id ` set slots" by (rule conjunct1[OF G])
  have G2: "\<forall>s \<in> set slots. length (cells s) \<le> length (word_of a (slot_id s)) \<and>
        (\<forall>j < length (cells s).
           map_of (solution_grid slots a) (cells s ! j) = Some (word_of a (slot_id s) ! j))"
    by (rule conjunct1[OF conjunct2[OF G]])
  have G6: "mset (map snd (solution_grid slots a)) = mset phrase"
    by (rule conjunct2[OF conjunct2[OF conjunct2[OF conjunct2[OF conjunct2[OF G]]]]])
  have w: "word_of a (slot_id s) \<in> set (list_get cnd (slot_id s))" if "s \<in> set slots" for s
  proof -
    have "slot_id s \<in> fst ` set a" using that dom by simp
    then obtain w where w: "(slot_id s, w) \<in> set a" by force
    then have "map_of a (slot_id s) = Some w" using da by simp
    then have "word_of a (slot_id s) = w" by (simp add: word_of_def)
    moreover have "snd (slot_id s, w) \<in> set (list_get (cand E) (fst (slot_id s, w)))"
      by (rule bspec[OF pl[unfolded pool_inv_def] w])
    ultimately show ?thesis by (simp add: E(3))
  qed
  have B: "\<forall>s \<in> set slots. word_of a (slot_id s) \<in> set (list_get cnd (slot_id s)) \<and>
        (\<forall>j < length (cells s).
           map_of (solution_grid slots a) (cells s ! j) = Some (word_of a (slot_id s) ! j))"
  proof (rule ballI)
    fix s assume s: "s \<in> set slots"
    show "word_of a (slot_id s) \<in> set (list_get cnd (slot_id s)) \<and>
        (\<forall>j < length (cells s).
           map_of (solution_grid slots a) (cells s ! j) = Some (word_of a (slot_id s) ! j))"
      by (rule conjI[OF w[OF s] conjunct2[OF bspec[OF G2 s]]])
  qed
  show ?thesis unfolding exact_filling_def by (intro conjI dom B G6)
qed

text \<open>
  C6.  The search is a structural recursion over the slot order and the candidate lists, so
  it is total; for well-formed input (\<open>well_formed\<close>: distinct slot ids, distinct cells per
  slot, every intersection a crossing of the slots, a candidate list for every slot whose
  words are at least as long as the slot) \<open>find_solutions_for_grid\<close> returns a list and
  raises nothing, for every time limit, clock, and solution cap, also with no deadline
  (\<open>per_grid_time \<le> 0\<close>).  Every returned solution is an exact filling by candidate words,
  so when no combination of candidate words fills the grid with exactly the phrase letters
  the returned list is empty.
\<close>

theorem search_terminates:
  assumes "well_formed slots inters cnd"
  shows "\<exists>sols. find_solutions_for_grid slots inters phrase cnd t m clock = Inr sols \<and>
           (\<forall>a \<in> set sols. exact_filling slots cnd phrase a) \<and>
           ((\<forall>a. \<not> exact_filling slots cnd phrase a) \<longrightarrow> sols = [])"
proof -
  from well_formed_make_env[OF assms] obtain E where
    E: "make_env slots inters cnd t m clock = Inr E" by blast
  note T = well_formed_total_env[OF assms E]
  note F = make_env_fields[OF E]
  have d: "distinct (map slot_id slots)" and dc: "\<forall>s \<in> set slots. distinct (cells s)"
    using well_formedD(1,2)[OF assms] by blast+
  have dI: "distinct (ids E)" using T unfolding total_env_def by (rule conjunct1)
  have "\<exists>st'. dfs E (ids E) (initial_state phrase) = Inr st' \<and> grows_pool E (initial_state phrase) st'"
  proof (rule dfs_total[OF T _ dI search_inv_initial])
    show "set (ids E) \<subseteq> set (ids E)" by simp
    show "pool_inv E (sol (initial_state phrase))" by (simp add: initial_state_def pool_inv_def)
    show "fst ` set (sol (initial_state phrase)) = set (ids E) - set (ids E)"
      by (simp add: initial_state_def)
  qed
  then obtain st' where st': "dfs E (ids E) (initial_state phrase) = Inr st'"
    "grows_pool E (initial_state phrase) st'" by blast
  have run: "find_solutions_for_grid slots inters phrase cnd t m clock = Inr (solutions st')"
    using E st'(1) by (simp add: find_solutions_for_grid_def)
  have pool: "\<And>a. a \<in> set (solutions st') \<Longrightarrow> pool_inv E a"
    using st'(2) by (auto simp: grows_pool_def initial_state_def)
  have ids: "set (ids E) = slot_id ` set slots" using F(2) by (metis mset_eq_setD set_map)
  have ex: "exact_filling slots cnd phrase a" if "a \<in> set (solutions st')" for a
  proof -
    from find_solutions_sound[OF d _ run] dc
    obtain E' where E': "make_env slots inters cnd t m clock = Inr E'"
      "\<forall>a \<in> set (solutions st'). valid_filling E' phrase a" by blast
    have "E' = E" using E E'(1) by simp
    then have "valid_filling E phrase a" using E'(2) that by blast
    then show ?thesis using valid_pool_exact[OF d F(1) ids F(3) _ pool[OF that]] by blast
  qed
  have "(\<forall>a. \<not> exact_filling slots cnd phrase a) \<longrightarrow> solutions st' = []"
  proof
    assume n: "\<forall>a. \<not> exact_filling slots cnd phrase a"
    show "solutions st' = []"
    proof (cases "solutions st'")
      case Nil
      then show ?thesis .
    next
      case (Cons a as)
      then have "exact_filling slots cnd phrase a" using ex by simp
      then show ?thesis using n by blast
    qed
  qed
  then show ?thesis using run ex by blast
qed

lemma scarce_run:
  "find_solutions_for_grid [demo_H, demo_V] [demo_x] (str ''ABC'') scarce_cand 0 5 (\<lambda>_. False) = Inr []"
  by code_simp

theorem search_terminates_witness:
  "well_formed [demo_H, demo_V] [demo_x] scarce_cand \<and>
   find_solutions_for_grid [demo_H, demo_V] [demo_x] (str ''ABC'') scarce_cand 0 5 (\<lambda>_. False) = Inr [] \<and>
   well_formed [demo_H, demo_V] [demo_x] demo_cand \<and>
   exact_filling [demo_H, demo_V] demo_cand (str ''ABC'') [(str ''H'', str ''AB''), (str ''V'', str ''AC'')]"
proof -
  have c: "crossing_of [demo_H, demo_V] demo_x"
    by (simp add: crossing_of_def demo_H_def demo_V_def demo_x_def str_def)
  have w1: "well_formed [demo_H, demo_V] [demo_x] scarce_cand"
    unfolding well_formed_def using c
    by (simp add: demo_H_def demo_V_def scarce_cand_def str_def)
  have w2: "well_formed [demo_H, demo_V] [demo_x] demo_cand"
    unfolding well_formed_def using c
    by (simp add: demo_H_def demo_V_def demo_cand_def str_def)
  from search_terminates[OF w2, of "str ''ABC''" 0 5 "\<lambda>_. False"]
  obtain sols where sols:
    "find_solutions_for_grid [demo_H, demo_V] [demo_x] (str ''ABC'') demo_cand 0 5 (\<lambda>_. False) = Inr sols"
    "\<forall>a \<in> set sols. exact_filling [demo_H, demo_V] demo_cand (str ''ABC'') a" by blast
  have "sols = [[(str ''H'', str ''AB''), (str ''V'', str ''AC'')],
            [(str ''H'', str ''AC''), (str ''V'', str ''AB'')]]"
    using sols(1) demo_run by simp
  then have e: "exact_filling [demo_H, demo_V] demo_cand (str ''ABC'') [(str ''H'', str ''AB''), (str ''V'', str ''AC'')]"
    using sols(2) by simp
  show ?thesis
    apply (intro conjI)
       apply (rule w1)
      apply (rule scarce_run)
     apply (rule w2)
    apply (rule e)
    done
qed

section \<open>The round trip of place and unplace\<close>

lemma place_cell_letters:
  "cell_letter (place_cell c ch st) =
     (if counter_get (cell_usage st) c = 0 then AList.update c ch (cell_letter st) else cell_letter st)"
  "counter_get (cell_usage (place_cell c ch st)) c' =
     counter_get (cell_usage st) c' + (if c' = c then 1 else 0)"
  "fst ` set (cell_usage (place_cell c ch st)) = insert c (fst ` set (cell_usage st))"
  "fst ` set (budget (place_cell c ch st)) =
     (if counter_get (cell_usage st) c = 0 then insert ch (fst ` set (budget st)) else fst ` set (budget st))"
  by (simp_all add: place_cell_def)

lemma unplace_cell_letters:
  "cell_letter (unplace_cell c ch st) =
     (if counter_get (cell_usage st) c = 1 then AList.delete c (cell_letter st) else cell_letter st)"
  "counter_get (cell_usage (unplace_cell c ch st)) c' =
     counter_get (cell_usage st) c' - (if c' = c then 1 else 0)"
  "fst ` set (cell_usage (unplace_cell c ch st)) = insert c (fst ` set (cell_usage st))"
  "fst ` set (budget (unplace_cell c ch st)) =
     (if counter_get (cell_usage st) c = 1 then insert ch (fst ` set (budget st)) else fst ` set (budget st))"
  by (simp_all add: unplace_cell_def Let_def)

lemma newly_claimed_pos_Cons:
  "{ch. 0 < newly_claimed u word k (c # cs) ch} =
     (if u c = 0 then {word ! k} else {}) \<union> {ch. 0 < newly_claimed u word (Suc k) cs ch}"
proof -
  have "0 < newly_claimed u word k (c # cs) ch \<longleftrightarrow>
      (u c = 0 \<and> word ! k = ch) \<or> 0 < newly_claimed u word (Suc k) cs ch" for ch
    using newly_claimed_nonneg[of u word "Suc k" cs ch] by auto
  then show ?thesis by auto
qed

lemma place_cells_letters:
  assumes "distinct cs" "k + length cs \<le> length word"
    "\<forall>c \<in> set cs. counter_get (cell_usage st) c = 0 \<longrightarrow> c \<notin> fst ` set (cell_letter st)"
    "place_cells word k cs st = Inr p"
  shows "cell_letter p =
           cell_letter st @ filter (\<lambda>cl. counter_get (cell_usage st) (fst cl) = 0) (zip cs (drop k word)) \<and>
         fst ` set (cell_usage p) = fst ` set (cell_usage st) \<union> set cs \<and>
         fst ` set (budget p) =
           fst ` set (budget st) \<union> {ch. 0 < newly_claimed (counter_get (cell_usage st)) word k cs ch}"
  using assms
proof (induction cs arbitrary: k st)
  case Nil
  then show ?case by simp
next
  case (Cons c cs)
  let ?s = "place_cell c (word ! k) st"
  have k: "k < length word" using Cons.prems(2) by simp
  have cnot: "c \<notin> set cs" using Cons.prems(1) by simp
  have run: "place_cells word (Suc k) cs ?s = Inr p"
    using Cons.prems(4) k by (simp add: place_cells_Cons)
  have us: "counter_get (cell_usage ?s) c' = counter_get (cell_usage st) c'" if "c' \<in> set cs" for c'
    using that cnot by (auto simp: place_cell_letters(2))
  have cl: "cell_letter ?s =
      cell_letter st @ (if counter_get (cell_usage st) c = 0 then [(c, word ! k)] else [])"
    using Cons.prems(3) by (simp add: place_cell_letters(1) update_fresh_append)
  have pre: "\<forall>c' \<in> set cs. counter_get (cell_usage ?s) c' = 0 \<longrightarrow> c' \<notin> fst ` set (cell_letter ?s)"
  proof (intro ballI impI)
    fix c' assume a: "c' \<in> set cs" "counter_get (cell_usage ?s) c' = 0"
    then have "counter_get (cell_usage st) c' = 0" using us by simp
    then have "c' \<notin> fst ` set (cell_letter st)" using Cons.prems(3) a(1) by simp
    moreover have "c' \<noteq> c" using a(1) cnot by auto
    ultimately show "c' \<notin> fst ` set (cell_letter ?s)" by (auto simp: cl)
  qed
  have d: "distinct cs" and l: "Suc k + length cs \<le> length word" using Cons.prems(1,2) by simp_all
  note IH = Cons.IH[OF d l pre run]
  have f: "filter (\<lambda>cl. counter_get (cell_usage ?s) (fst cl) = 0) (zip cs (drop (Suc k) word)) =
           filter (\<lambda>cl. counter_get (cell_usage st) (fst cl) = 0) (zip cs (drop (Suc k) word))"
    by (rule filter_cong[OF refl]) (auto dest!: set_zip_leftD simp: us)
  have z: "zip (c # cs) (drop k word) = (c, word ! k) # zip cs (drop (Suc k) word)"
    using k by (simp add: Cons_nth_drop_Suc[symmetric])
  have nc: "newly_claimed (counter_get (cell_usage ?s)) word (Suc k) cs ch =
            newly_claimed (counter_get (cell_usage st)) word (Suc k) cs ch" for ch
    by (rule newly_claimed_cong) (simp add: us)
  have A: "cell_letter p =
      cell_letter st @ filter (\<lambda>cl. counter_get (cell_usage st) (fst cl) = 0) (zip (c # cs) (drop k word))"
    using IH f by (simp add: cl z)
  have B: "fst ` set (cell_usage p) = fst ` set (cell_usage st) \<union> set (c # cs)"
    using IH by (simp add: place_cell_letters(3))
  have C: "fst ` set (budget p) =
      fst ` set (budget st) \<union> {ch. 0 < newly_claimed (counter_get (cell_usage st)) word k (c # cs) ch}"
    using IH by (simp add: place_cell_letters(4) nc newly_claimed_pos_Cons del: newly_claimed.simps)
  show ?case using A B C by blast
qed

lemma unplace_cells_letters:
  assumes "distinct cs" "unplace_cells word k cs st = Inr q"
  shows "cell_letter q =
           filter (\<lambda>cl. \<not> (fst cl \<in> set cs \<and> counter_get (cell_usage st) (fst cl) = 1)) (cell_letter st) \<and>
         fst ` set (cell_usage q) = fst ` set (cell_usage st) \<union> set cs \<and>
         fst ` set (budget q) =
           fst ` set (budget st) \<union> {ch. 0 < newly_claimed (\<lambda>c. counter_get (cell_usage st) c - 1) word k cs ch}"
  using assms
proof (induction cs arbitrary: k st)
  case Nil
  then show ?case by simp
next
  case (Cons c cs)
  let ?s = "unplace_cell c (word ! k) st"
  have cnot: "c \<notin> set cs" and d: "distinct cs" using Cons.prems(1) by simp_all
  have run: "unplace_cells word (Suc k) cs ?s = Inr q"
    using Cons.prems(2) by (simp add: unplace_cells_Cons split: if_splits)
  have us: "counter_get (cell_usage ?s) c' = counter_get (cell_usage st) c'" if "c' \<in> set cs" for c'
    using that cnot by (auto simp: unplace_cell_letters(2))
  note IH = Cons.IH[OF d run]
  have cl: "cell_letter ?s =
      filter (\<lambda>cl. \<not> (fst cl = c \<and> counter_get (cell_usage st) c = 1)) (cell_letter st)"
    by (auto simp: unplace_cell_letters(1) AList.delete_eq intro: filter_cong)
  have nc: "newly_claimed (\<lambda>c. counter_get (cell_usage ?s) c - 1) word (Suc k) cs ch =
            newly_claimed (\<lambda>c. counter_get (cell_usage st) c - 1) word (Suc k) cs ch" for ch
    by (rule newly_claimed_cong) (simp add: us)
  have "cell_letter q =
      filter (\<lambda>cl. \<not> (fst cl \<in> set cs \<and> counter_get (cell_usage ?s) (fst cl) = 1))
        (filter (\<lambda>cl. \<not> (fst cl = c \<and> counter_get (cell_usage st) c = 1)) (cell_letter st))"
    using IH by (simp only: cl)
  also have "\<dots> = filter (\<lambda>cl. \<not> (fst cl \<in> set (c # cs) \<and> counter_get (cell_usage st) (fst cl) = 1))
        (cell_letter st)"
    unfolding filter_filter
    by (rule filter_cong[OF refl]) (use us in auto)
  finally have A: "cell_letter q =
      filter (\<lambda>cl. \<not> (fst cl \<in> set (c # cs) \<and> counter_get (cell_usage st) (fst cl) = 1)) (cell_letter st)" .
  have B: "fst ` set (cell_usage q) = fst ` set (cell_usage st) \<union> set (c # cs)"
    using IH by (simp add: unplace_cell_letters(3))
  have C: "fst ` set (budget q) =
      fst ` set (budget st) \<union> {ch. 0 < newly_claimed (\<lambda>c. counter_get (cell_usage st) c - 1) word k (c # cs) ch}"
    using IH by (simp add: unplace_cell_letters(4) nc newly_claimed_pos_Cons del: newly_claimed.simps)
  show ?case using A B C by blast
qed

lemma demo_placed_reached:
  "place demo_env (str ''H'') (str ''AB'') (initial_state (str ''ABC'')) = Inr demo_placed"
  by code_simp

lemma roundtrip_leaves_zero_counts:
  "bind_err (place demo_env (str ''H'') (str ''AB'') (initial_state (str ''ABC'')))
     (unplace demo_env (str ''H'') (str ''AB'')) =
   Inr ((initial_state (str ''ABC''))\<lparr>cell_usage := [((0, 0), 0), ((0, 1), 0)]\<rparr>)"
  by code_simp

lemma roundtrip_of_assigned_slot:
  "bind_err (place demo_env (str ''H'') (str ''AC'') demo_placed)
     (unplace demo_env (str ''H'') (str ''AC'')) = Inr (demo_placed\<lparr>sol := []\<rparr>)"
  by code_simp

lemma place_short_word:
  "place demo_env (str ''H'') (str ''A'') (initial_state (str ''ABC'')) = Inl IndexError"
  by code_simp

text \<open>
  C4, as stated, fails in three ways.  After \<open>place("H", "AB")\<close> and \<open>unplace("H", "AB")\<close> in
  the initial state, \<open>cell_usage\<close> is not the empty dictionary it was: it keeps the two
  cells of the slot with count 0.  In the state where slot H holds AB, placing and
  unplacing AC on the same slot H leaves \<open>sol\<close> empty, so the assignment of H is lost.  And
  \<open>place\<close> of a word shorter than its slot raises \<open>IndexError\<close>.
\<close>

theorem place_unplace_not_exact:
  "(\<exists>st1 st2. place demo_env (str ''H'') (str ''AB'') (initial_state (str ''ABC'')) = Inr st1 \<and>
      unplace demo_env (str ''H'') (str ''AB'') st1 = Inr st2 \<and>
      cell_usage st2 = [((0, 0), 0), ((0, 1), 0)] \<and>
      cell_usage st2 \<noteq> cell_usage (initial_state (str ''ABC''))) \<and>
   (\<exists>st1 st2. place demo_env (str ''H'') (str ''AC'') demo_placed = Inr st1 \<and>
      unplace demo_env (str ''H'') (str ''AC'') st1 = Inr st2 \<and>
      sol st2 = [] \<and> sol st2 \<noteq> sol demo_placed) \<and>
   place demo_env (str ''H'') (str ''A'') (initial_state (str ''ABC'')) = Inl IndexError"
proof (intro conjI)
  from roundtrip_leaves_zero_counts obtain st1 where
    "place demo_env (str ''H'') (str ''AB'') (initial_state (str ''ABC'')) = Inr st1"
    "unplace demo_env (str ''H'') (str ''AB'') st1 =
       Inr ((initial_state (str ''ABC''))\<lparr>cell_usage := [((0, 0), 0), ((0, 1), 0)]\<rparr>)"
    by (auto simp: bind_err_eq_Inr)
  then show "\<exists>st1 st2. place demo_env (str ''H'') (str ''AB'') (initial_state (str ''ABC'')) = Inr st1 \<and>
      unplace demo_env (str ''H'') (str ''AB'') st1 = Inr st2 \<and>
      cell_usage st2 = [((0, 0), 0), ((0, 1), 0)] \<and>
      cell_usage st2 \<noteq> cell_usage (initial_state (str ''ABC''))"
    by (simp add: initial_state_def)
next
  from roundtrip_of_assigned_slot obtain st1 where
    "place demo_env (str ''H'') (str ''AC'') demo_placed = Inr st1"
    "unplace demo_env (str ''H'') (str ''AC'') st1 = Inr (demo_placed\<lparr>sol := []\<rparr>)"
    by (auto simp: bind_err_eq_Inr)
  then show "\<exists>st1 st2. place demo_env (str ''H'') (str ''AC'') demo_placed = Inr st1 \<and>
      unplace demo_env (str ''H'') (str ''AC'') st1 = Inr st2 \<and>
      sol st2 = [] \<and> sol st2 \<noteq> sol demo_placed"
    by (simp add: demo_placed_def)
next
  show "place demo_env (str ''H'') (str ''A'') (initial_state (str ''ABC'')) = Inl IndexError"
    by (rule place_short_word)
qed

text \<open>
  C4 (amended).  Take a state in which every cell of the slot whose reference count is
  zero has no letter recorded, a slot \<open>i\<close> of \<open>by_id\<close> that is not assigned, with pairwise
  distinct cells, and a word at least as long as the slot.  Then \<open>place\<close> followed by
  \<open>unplace\<close> raises nothing and restores \<open>sol\<close> and \<open>cell_letter\<close> exactly, and the budget
  and \<open>cell_usage\<close> as counters: every letter and every cell reads the count it had, and
  the only new entries are entries with count 0, in \<open>cell_usage\<close> for the cells of the slot
  and in the budget for the letters that \<open>place\<close> charged.  \<open>place\<close> deducts from the
  budget of a letter exactly the number of cells of the slot whose reference count was
  zero and that receive this letter, so a cell shared with a placed slot is not charged
  again.
\<close>

theorem place_unplace_restores:
  assumes s: "dict_get (by_id E) i = Inr s"
    and dist: "distinct (cells s)"
    and len: "length (cells s) \<le> length word"
    and fresh: "i \<notin> fst ` set (sol st)"
    and cons: "\<forall>c \<in> set (cells s). counter_get (cell_usage st) c = 0 \<longrightarrow> c \<notin> fst ` set (cell_letter st)"
  shows "\<exists>st1 st2. place E i word st = Inr st1 \<and> unplace E i word st1 = Inr st2 \<and>
     (\<forall>ch. counter_get (budget st1) ch =
            counter_get (budget st) ch - newly_claimed (counter_get (cell_usage st)) word 0 (cells s) ch) \<and>
     (\<forall>ch. counter_get (budget st2) ch = counter_get (budget st) ch) \<and>
     fst ` set (budget st2) =
       fst ` set (budget st) \<union> {ch. 0 < newly_claimed (counter_get (cell_usage st)) word 0 (cells s) ch} \<and>
     cell_letter st2 = cell_letter st \<and>
     (\<forall>c. counter_get (cell_usage st2) c = counter_get (cell_usage st) c) \<and>
     fst ` set (cell_usage st2) = fst ` set (cell_usage st) \<union> set (cells s) \<and>
     sol st2 = sol st \<and> solutions st2 = solutions st \<and>
     seen_signatures st2 = seen_signatures st \<and> checks st2 = checks st"
proof -
  from place_unplace_counts[OF s dist len fresh cons]
  obtain st1 st2 where pl: "place E i word st = Inr st1" and un: "unplace E i word st1 = Inr st2"
    and b1: "\<forall>ch. counter_get (budget st1) ch =
            counter_get (budget st) ch - newly_claimed (counter_get (cell_usage st)) word 0 (cells s) ch"
    and b2: "\<forall>ch. counter_get (budget st2) ch = counter_get (budget st) ch"
    and u2: "\<forall>c. counter_get (cell_usage st2) c = counter_get (cell_usage st) c"
    and fr: "sol st2 = sol st" "solutions st2 = solutions st"
      "seen_signatures st2 = seen_signatures st" "checks st2 = checks st"
    by blast
  from pl s obtain p where p: "place_cells word 0 (cells s) st = Inr p"
    and st1: "st1 = p\<lparr>sol := AList.update i word (sol p)\<rparr>"
    by (auto simp: place_def bind_err_eq_Inr)
  from un s obtain q where q: "unplace_cells word 0 (cells s) st1 = Inr q"
    and st2: "st2 = q\<lparr>sol := AList.delete i (sol q)\<rparr>"
    by (auto simp: unplace_def bind_err_eq_Inr split: if_splits)
  have l0: "0 + length (cells s) \<le> length word" using len by simp
  note P = place_cells_letters[OF dist l0 cons p]
  note Q = unplace_cells_letters[OF dist q]
  from place_cells_closed[OF dist l0, of st] p
  have up: "\<forall>c. counter_get (cell_usage p) c =
      counter_get (cell_usage st) c + (if c \<in> set (cells s) then 1 else 0)" by auto
  have u1: "counter_get (cell_usage st1) c =
      counter_get (cell_usage st) c + (if c \<in> set (cells s) then 1 else 0)" for c
    using up[rule_format, of c] by (simp add: st1)
  have keep: "filter (\<lambda>cl. \<not> (fst cl \<in> set (cells s) \<and> counter_get (cell_usage st1) (fst cl) = 1))
                (cell_letter st) = cell_letter st"
  proof (rule filter_True, intro ballI)
    fix cl assume "cl \<in> set (cell_letter st)"
    then have "fst cl \<in> fst ` set (cell_letter st)" by simp
    then have "fst cl \<in> set (cells s) \<longrightarrow> counter_get (cell_usage st) (fst cl) \<noteq> 0"
      using cons by blast
    then show "\<not> (fst cl \<in> set (cells s) \<and> counter_get (cell_usage st1) (fst cl) = 1)"
      by (auto simp: u1)
  qed
  have drop: "filter (\<lambda>cl. \<not> (fst cl \<in> set (cells s) \<and> counter_get (cell_usage st1) (fst cl) = 1))
                (filter (\<lambda>cl. counter_get (cell_usage st) (fst cl) = 0) (zip (cells s) (drop 0 word))) = []"
    by (auto simp: filter_empty_conv u1 dest: set_zip_leftD)
  have "cell_letter st2 =
      filter (\<lambda>cl. \<not> (fst cl \<in> set (cells s) \<and> counter_get (cell_usage st1) (fst cl) = 1))
        (cell_letter st1)"
    using Q by (simp add: st2)
  also have "cell_letter st1 =
      cell_letter st @ filter (\<lambda>cl. counter_get (cell_usage st) (fst cl) = 0) (zip (cells s) (drop 0 word))"
    using P by (simp add: st1)
  finally have cl2: "cell_letter st2 = cell_letter st"
    by (simp only: filter_append keep drop append_Nil2)
  have nc: "newly_claimed (\<lambda>c. counter_get (cell_usage st1) c - 1) word 0 (cells s) ch
      = newly_claimed (counter_get (cell_usage st)) word 0 (cells s) ch" for ch
    by (rule newly_claimed_cong) (simp add: u1)
  have "fst ` set (cell_usage st2) = fst ` set (cell_usage st1) \<union> set (cells s)"
    using Q by (simp add: st2)
  moreover have "fst ` set (cell_usage st1) = fst ` set (cell_usage st) \<union> set (cells s)"
    using P by (simp add: st1)
  ultimately have k2: "fst ` set (cell_usage st2) = fst ` set (cell_usage st) \<union> set (cells s)"
    by (simp only: Un_assoc Un_absorb)
  have "fst ` set (budget st2) = fst ` set (budget st1) \<union>
      {ch. 0 < newly_claimed (\<lambda>c. counter_get (cell_usage st1) c - 1) word 0 (cells s) ch}"
    using Q by (simp add: st2)
  moreover have "fst ` set (budget st1) = fst ` set (budget st) \<union>
      {ch. 0 < newly_claimed (counter_get (cell_usage st)) word 0 (cells s) ch}"
    using P by (simp add: st1)
  ultimately have kb: "fst ` set (budget st2) =
       fst ` set (budget st) \<union> {ch. 0 < newly_claimed (counter_get (cell_usage st)) word 0 (cells s) ch}"
    by (simp only: nc Un_assoc Un_absorb)
  show ?thesis
    by (intro exI[of _ st1] exI[of _ st2] conjI) (fact pl un b1 b2 kb cl2 u2 k2 fr)+
qed

lemma demo_placed_charge:
  "newly_claimed (counter_get (cell_usage demo_placed)) (str ''AC'') 0 (cells demo_V) 65 = 0"
  "newly_claimed (counter_get (cell_usage demo_placed)) (str ''AC'') 0 (cells demo_V) 67 = 1"
  by (simp_all add: demo_placed_def demo_V_def str_def counter_get_def)

theorem place_unplace_restores_witness:
  "\<exists>st1 st2. place demo_env (str ''V'') (str ''AC'') demo_placed = Inr st1 \<and>
     unplace demo_env (str ''V'') (str ''AC'') st1 = Inr st2 \<and>
     counter_get (cell_usage demo_placed) (0, 0) = 1 \<and>
     counter_get (budget st1) 65 = counter_get (budget demo_placed) 65 \<and>
     counter_get (budget st1) 67 = counter_get (budget demo_placed) 67 - 1 \<and>
     (\<forall>ch. counter_get (budget st2) ch = counter_get (budget demo_placed) ch) \<and>
     cell_letter st2 = cell_letter demo_placed \<and>
     (\<forall>c. counter_get (cell_usage st2) c = counter_get (cell_usage demo_placed) c) \<and>
     sol st2 = sol demo_placed"
proof -
  have h1: "dict_get (by_id demo_env) (str ''V'') = Inr demo_V"
    by (simp add: demo_env_def make_by_id_def demo_H_def demo_V_def dict_get_def str_def)
  have h2: "distinct (cells demo_V)" by (simp add: demo_V_def)
  have h3: "length (cells demo_V) \<le> length (str ''AC'')" by (simp add: demo_V_def str_def)
  have h4: "str ''V'' \<notin> fst ` set (sol demo_placed)" by (simp add: demo_placed_def str_def)
  have h5: "\<forall>c \<in> set (cells demo_V). counter_get (cell_usage demo_placed) c = 0 \<longrightarrow>
              c \<notin> fst ` set (cell_letter demo_placed)"
    by (simp add: demo_placed_def demo_V_def counter_get_def)
  from place_unplace_restores[OF h1 h2 h3 h4 h5]
  obtain st1 st2 where R: "place demo_env (str ''V'') (str ''AC'') demo_placed = Inr st1 \<and>
     unplace demo_env (str ''V'') (str ''AC'') st1 = Inr st2 \<and>
     (\<forall>ch. counter_get (budget st1) ch = counter_get (budget demo_placed) ch
        - newly_claimed (counter_get (cell_usage demo_placed)) (str ''AC'') 0 (cells demo_V) ch) \<and>
     (\<forall>ch. counter_get (budget st2) ch = counter_get (budget demo_placed) ch) \<and>
     fst ` set (budget st2) = fst ` set (budget demo_placed) \<union>
       {ch. 0 < newly_claimed (counter_get (cell_usage demo_placed)) (str ''AC'') 0 (cells demo_V) ch} \<and>
     cell_letter st2 = cell_letter demo_placed \<and>
     (\<forall>c. counter_get (cell_usage st2) c = counter_get (cell_usage demo_placed) c) \<and>
     fst ` set (cell_usage st2) = fst ` set (cell_usage demo_placed) \<union> set (cells demo_V) \<and>
     sol st2 = sol demo_placed \<and> solutions st2 = solutions demo_placed \<and>
     seen_signatures st2 = seen_signatures demo_placed \<and> checks st2 = checks demo_placed"
    by (elim exE) (rule that)
  note r = R[THEN conjunct1] R[THEN conjunct2, THEN conjunct1]
    R[THEN conjunct2, THEN conjunct2, THEN conjunct1]
    R[THEN conjunct2, THEN conjunct2, THEN conjunct2, THEN conjunct1]
    R[THEN conjunct2, THEN conjunct2, THEN conjunct2, THEN conjunct2, THEN conjunct2, THEN conjunct1]
    R[THEN conjunct2, THEN conjunct2, THEN conjunct2, THEN conjunct2, THEN conjunct2, THEN conjunct2,
      THEN conjunct1]
    R[THEN conjunct2, THEN conjunct2, THEN conjunct2, THEN conjunct2, THEN conjunct2, THEN conjunct2,
      THEN conjunct2, THEN conjunct2, THEN conjunct1]
  have u: "counter_get (cell_usage demo_placed) (0, 0) = 1"
    by (simp add: demo_placed_def counter_get_def)
  have a: "counter_get (budget st1) 65 = counter_get (budget demo_placed) 65"
    using r(3)[rule_format, of 65] by (simp only: demo_placed_charge diff_0_right)
  have c: "counter_get (budget st1) 67 = counter_get (budget demo_placed) 67 - 1"
    using r(3)[rule_format, of 67] by (simp only: demo_placed_charge)
  show ?thesis
    by (intro exI[of _ st1] exI[of _ st2] conjI) (fact r(1,2,4,5,6,7) u a c)+
qed

section \<open>The canonical signature\<close>

lemma class_buckets_closed:
  assumes "class_buckets s2c a b = Inr r"
  shows "(\<forall>n. list_get r n = list_get b n @ map snd (filter (\<lambda>iw. map_of s2c (fst iw) = Some n) a)) \<and>
         fst ` set r = fst ` set b \<union> set (List.map_filter (\<lambda>iw. map_of s2c (fst iw)) a) \<and>
         (distinct (map fst b) \<longrightarrow> distinct (map fst r))"
  using assms
proof (induction a arbitrary: b)
  case Nil
  then show ?case by (simp add: map_filter_simps)
next
  case (Cons iw a)
  obtain i w where iw: "iw = (i, w)" by (cases iw) auto
  from Cons.prems iw obtain c where c: "dict_get s2c i = Inr c"
    and run: "class_buckets s2c a (dict_append c w b) = Inr r"
    by (auto simp: bind_err_eq_Inr)
  have m: "map_of s2c i = Some c" using c by (simp add: dict_get_def split: option.splits)
  note IH = Cons.IH[OF run]
  have k: "fst ` set (dict_append c w b) = insert c (fst ` set b)"
    by (simp add: dict_append_def dom_update)
  have d: "distinct (map fst b) \<Longrightarrow> distinct (map fst (dict_append c w b))"
    by (simp add: dict_append_def distinct_update)
  have A: "list_get r n = list_get b n @ map snd (filter (\<lambda>iw. map_of s2c (fst iw) = Some n) (iw # a))" for n
    using IH[THEN conjunct1, rule_format, of n] by (simp add: list_get_dict_append iw m)
  have B: "fst ` set r = fst ` set b \<union> set (List.map_filter (\<lambda>iw. map_of s2c (fst iw)) (iw # a))"
    using IH[THEN conjunct2, THEN conjunct1] by (simp add: k iw m map_filter_simps)
  have C: "distinct (map fst b) \<longrightarrow> distinct (map fst r)"
    using IH[THEN conjunct2, THEN conjunct2] d by blast
  show ?case using A B C by blast
qed

lemma class_signature_canonical:
  assumes "class_signature s2c a = Inr sg"
  shows "sg = canonical_signature s2c a"
proof -
  from assms obtain r where r: "class_buckets s2c a [] = Inr r"
    and sg: "sg = map (\<lambda>n. (n, sort (list_get r n))) (sort (map fst r))"
    by (auto simp: class_signature_def bind_err_eq_Inr)
  note C = class_buckets_closed[OF r]
  have w: "sort (list_get r n) = class_words s2c a n" for n
    using C[THEN conjunct1, rule_format, of n] by (simp add: class_words_def list_get_def)
  have dr: "distinct (map fst r)" using C[THEN conjunct2, THEN conjunct2] by simp
  have sr: "set (map fst r) = set (List.map_filter (\<lambda>iw. map_of s2c (fst iw)) a)"
    using C[THEN conjunct2, THEN conjunct1] by simp
  have "sort (map fst r) = sort (remdups (List.map_filter (\<lambda>iw. map_of s2c (fst iw)) a))"
  proof (rule sorted_distinct_set_unique)
    show "sorted (sort (map fst r))" by simp
    show "distinct (sort (map fst r))" using dr by simp
    show "sorted (sort (remdups (List.map_filter (\<lambda>iw. map_of s2c (fst iw)) a)))" by simp
    show "distinct (sort (remdups (List.map_filter (\<lambda>iw. map_of s2c (fst iw)) a)))" by simp
    show "set (sort (map fst r)) = set (sort (remdups (List.map_filter (\<lambda>iw. map_of s2c (fst iw)) a)))"
      using sr by simp
  qed
  then show ?thesis by (simp add: sg canonical_signature_def w)
qed

lemma record_solution_canonical:
  assumes "record_solution E st = Inr st'"
  shows "if budget_exact st \<and> canonical_signature (sid_to_class E) (sol st) \<notin> set (seen_signatures st)
         then st' = st\<lparr>seen_signatures :=
                          seen_signatures st @ [canonical_signature (sid_to_class E) (sol st)],
                        solutions := solutions st @ [sol st]\<rparr>
         else st' = st"
proof (cases "budget_exact st")
  case False
  then show ?thesis using assms by (simp add: record_solution_def)
next
  case True
  with assms obtain sg where sg: "class_signature (sid_to_class E) (sol st) = Inr sg"
    by (auto simp: record_solution_def bind_err_eq_Inr)
  have c: "sg = canonical_signature (sid_to_class E) (sol st)" by (rule class_signature_canonical[OF sg])
  show ?thesis using assms True sg c by (auto simp: record_solution_def)
qed

lemma sig_inv_canonical:
  assumes "sig_inv E st"
  shows "map (canonical_signature (sid_to_class E)) (solutions st) = seen_signatures st"
proof -
  have m: "map (class_signature (sid_to_class E)) (solutions st) = map Inr (seen_signatures st)"
    using assms by (simp add: sig_inv_def)
  have "class_signature (sid_to_class E) a = Inr (canonical_signature (sid_to_class E) a)"
    if "a \<in> set (solutions st)" for a
  proof -
    have "class_signature (sid_to_class E) a \<in> set (map Inr (seen_signatures st))"
      using that m by (metis image_eqI list.set_map)
    then obtain sg where sg: "class_signature (sid_to_class E) a = Inr sg" by auto
    then show ?thesis using class_signature_canonical[OF sg] by simp
  qed
  then have "map (class_signature (sid_to_class E)) (solutions st) =
             map Inr (map (canonical_signature (sid_to_class E)) (solutions st))"
    by simp
  with m have "map Inr (map (canonical_signature (sid_to_class E)) (solutions st)) =
               map (Inr :: signature \<Rightarrow> py_error + signature) (seen_signatures st)" by simp
  then show ?thesis
    using inj_map_eq_map[of "Inr :: signature \<Rightarrow> py_error + signature"] by (simp del: map_map)
qed

lemma dup_classes:
  "slot_equivalence_classes dup_slots dup_inters =
     Inr ([((str ''H'', 2, [(str ''V'', 3, 0)]), [str ''H1'', str ''H2'']),
           ((str ''V'', 3, [(str ''H'', 2, 0), (str ''H'', 2, 2)]), [str ''V1''])], dup_s2c)"
  by code_simp

lemma dup_run:
  "find_solutions_for_grid dup_slots dup_inters (str ''AABDX'') dup_cand 0 5 (\<lambda>_. False) =
     Inr [[(str ''V1'', str ''ADA''), (str ''H1'', str ''AB''), (str ''H2'', str ''AX'')],
          [(str ''V1'', str ''ABA''), (str ''H1'', str ''AD''), (str ''H2'', str ''AX'')]]"
  by code_simp

lemma dup_unsorted:
  "class_signature dup_s2c
     [(str ''H1'', str ''AX''), (str ''V1'', str ''ADA''), (str ''H2'', str ''AB'')] =
   Inr [(0, [str ''AB'', str ''AX'']), (1, [str ''ADA''])]"
  by code_simp

lemma dup_goal_suppressed: "record_solution dup_env dup_goal = Inr dup_goal"
  by code_simp

lemma dup_goal_exact: "budget_exact dup_goal"
  by code_simp

text \<open>
  C3.  The signature that the code computes (\<open>class_signature\<close>) is the canonical signature
  of the specification: per equivalence class, the sorted words of its assigned members.
  The solutions that one run of \<open>find_solutions_for_grid\<close> returns have pairwise different
  canonical signatures, and at the goal test a state is recorded exactly when its budget
  is used up and its canonical signature is not yet in \<open>seen_signatures\<close>; otherwise the
  state, and so the solution list, is unchanged.
\<close>

theorem canonical_signatures_distinct:
  "(find_solutions_for_grid slots inters phrase cnd t m clock = Inr sols \<longrightarrow>
      (\<exists>ec s2c. slot_equivalence_classes slots inters = Inr (ec, s2c) \<and>
         distinct (map (canonical_signature s2c) sols) \<and>
         (\<forall>a \<in> set sols. class_signature s2c a = Inr (canonical_signature s2c a)))) \<and>
   (class_signature s2c' a' = Inr sg \<longrightarrow> sg = canonical_signature s2c' a') \<and>
   (record_solution E st = Inr st' \<longrightarrow>
      (if budget_exact st \<and> canonical_signature (sid_to_class E) (sol st) \<notin> set (seen_signatures st)
       then st' = st\<lparr>seen_signatures :=
                        seen_signatures st @ [canonical_signature (sid_to_class E) (sol st)],
                      solutions := solutions st @ [sol st]\<rparr>
       else st' = st))"
proof (intro conjI impI)
  assume run: "find_solutions_for_grid slots inters phrase cnd t m clock = Inr sols"
  from run obtain E' st' where E: "make_env slots inters cnd t m clock = Inr E'"
    and st: "dfs E' (ids E') (initial_state phrase) = Inr st'" and sols: "sols = solutions st'"
    unfolding find_solutions_for_grid_def by (auto simp: bind_err_eq_Inr)
  have "sig_inv E' (initial_state phrase)" by (simp add: sig_inv_def initial_state_def)
  then have J: "sig_inv E' st'" using dfs_sig st by blast
  from make_env_classes[OF E] obtain ec where
    ec: "slot_equivalence_classes slots inters = Inr (ec, sid_to_class E')" by blast
  have c: "map (canonical_signature (sid_to_class E')) sols = seen_signatures st'"
    using sig_inv_canonical[OF J] by (simp add: sols)
  have d: "distinct (map (canonical_signature (sid_to_class E')) sols)"
    using J by (simp add: c sig_inv_def)
  have e: "\<forall>a \<in> set sols. class_signature (sid_to_class E') a =
             Inr (canonical_signature (sid_to_class E') a)"
  proof
    fix a assume "a \<in> set sols"
    then have "class_signature (sid_to_class E') a \<in> set (map Inr (seen_signatures st'))"
      using J by (metis sig_inv_def sols image_eqI list.set_map)
    then obtain sg where sg: "class_signature (sid_to_class E') a = Inr sg" by auto
    then show "class_signature (sid_to_class E') a = Inr (canonical_signature (sid_to_class E') a)"
      using class_signature_canonical[OF sg] by simp
  qed
  show "\<exists>ec s2c. slot_equivalence_classes slots inters = Inr (ec, s2c) \<and>
         distinct (map (canonical_signature s2c) sols) \<and>
         (\<forall>a \<in> set sols. class_signature s2c a = Inr (canonical_signature s2c a))"
    by (intro exI[of _ ec] exI[of _ "sid_to_class E'"] conjI) (fact ec d e)+
next
  assume "class_signature s2c' a' = Inr sg"
  then show "sg = canonical_signature s2c' a'" by (rule class_signature_canonical)
next
  assume "record_solution E st = Inr st'"
  then show "if budget_exact st \<and> canonical_signature (sid_to_class E) (sol st) \<notin> set (seen_signatures st)
       then st' = st\<lparr>seen_signatures :=
                        seen_signatures st @ [canonical_signature (sid_to_class E) (sol st)],
                      solutions := solutions st @ [sol st]\<rparr>
       else st' = st"
    by (rule record_solution_canonical)
qed

theorem canonical_signatures_distinct_witness:
  "find_solutions_for_grid dup_slots dup_inters (str ''AABDX'') dup_cand 0 5 (\<lambda>_. False) =
     Inr [[(str ''V1'', str ''ADA''), (str ''H1'', str ''AB''), (str ''H2'', str ''AX'')],
          [(str ''V1'', str ''ABA''), (str ''H1'', str ''AD''), (str ''H2'', str ''AX'')]] \<and>
   distinct (map (canonical_signature dup_s2c)
     [[(str ''V1'', str ''ADA''), (str ''H1'', str ''AB''), (str ''H2'', str ''AX'')],
      [(str ''V1'', str ''ABA''), (str ''H1'', str ''AD''), (str ''H2'', str ''AX'')]]) \<and>
   canonical_signature dup_s2c
     [(str ''H1'', str ''AX''), (str ''V1'', str ''ADA''), (str ''H2'', str ''AB'')] =
     [(0, [str ''AB'', str ''AX'']), (1, [str ''ADA''])] \<and>
   budget_exact dup_goal \<and>
   canonical_signature (sid_to_class dup_env) (sol dup_goal) \<in> set (seen_signatures dup_goal) \<and>
   record_solution dup_env dup_goal = Inr dup_goal"
proof -
  let ?s1 = "[(str ''V1'', str ''ADA''), (str ''H1'', str ''AB''), (str ''H2'', str ''AX'')]"
  let ?s2 = "[(str ''V1'', str ''ABA''), (str ''H1'', str ''AD''), (str ''H2'', str ''AX'')]"
  let ?u = "[(str ''H1'', str ''AX''), (str ''V1'', str ''ADA''), (str ''H2'', str ''AB'')]"
  note T = canonical_signatures_distinct[where slots = dup_slots and inters = dup_inters
      and phrase = "str ''AABDX''" and cnd = dup_cand and t = 0 and m = 5 and clock = "\<lambda>_. False"
      and sols = "[?s1, ?s2]" and s2c' = dup_s2c and a' = ?u
      and sg = "[(0, [str ''AB'', str ''AX'']), (1, [str ''ADA''])]"
      and E = dup_env and st = dup_goal and st' = dup_goal]
  from T[THEN conjunct1, THEN mp, OF dup_run] obtain ec s2c where
    c: "slot_equivalence_classes dup_slots dup_inters = Inr (ec, s2c)"
    and d: "distinct (map (canonical_signature s2c) [?s1, ?s2])"
    by (elim exE conjE) (rule that)
  have "s2c = dup_s2c" using c dup_classes by simp
  then have A: "distinct (map (canonical_signature dup_s2c) [?s1, ?s2])" using d by (simp only:)
  have B: "canonical_signature dup_s2c ?u = [(0, [str ''AB'', str ''AX'']), (1, [str ''ADA''])]"
    using T[THEN conjunct2, THEN conjunct1, THEN mp, OF dup_unsorted] by (rule sym)
  have ne: "dup_goal \<noteq> dup_goal\<lparr>seen_signatures :=
        seen_signatures dup_goal @ [canonical_signature (sid_to_class dup_env) (sol dup_goal)],
        solutions := solutions dup_goal @ [sol dup_goal]\<rparr>"
  proof
    assume "dup_goal = dup_goal\<lparr>seen_signatures :=
        seen_signatures dup_goal @ [canonical_signature (sid_to_class dup_env) (sol dup_goal)],
        solutions := solutions dup_goal @ [sol dup_goal]\<rparr>"
    then have "solutions dup_goal = solutions (dup_goal\<lparr>seen_signatures :=
        seen_signatures dup_goal @ [canonical_signature (sid_to_class dup_env) (sol dup_goal)],
        solutions := solutions dup_goal @ [sol dup_goal]\<rparr>)" by (rule arg_cong)
    then show False by simp
  qed
  have C: "canonical_signature (sid_to_class dup_env) (sol dup_goal) \<in> set (seen_signatures dup_goal)"
    using T[THEN conjunct2, THEN conjunct2, THEN mp, OF dup_goal_suppressed] dup_goal_exact ne
    by (simp only: split: if_splits) blast
  show ?thesis
    by (intro conjI) (fact dup_run A B dup_goal_exact C dup_goal_suppressed)+
qed

section \<open>The budget invariant along the search\<close>

lemma bind_log_simps [simp]:
  "bind_log (l, Inl e) f = (l, Inl e)"
  "bind_log (l, Inr v) f = (l @ fst (f v), snd (f v))"
  by (simp_all add: bind_log_def split: prod.splits)

lemma snd_bind_log: "snd (bind_log m f) = bind_err (snd m) (\<lambda>v. snd (f v))"
  by (cases m; cases "snd m") (auto simp: bind_log_def bind_err_def split: prod.splits)

lemma snd_quiet [simp]: "snd (quiet m) = m" "fst (quiet m) = []"
  by (simp_all add: quiet_def)

lemma snd_logging [simp]: "snd (logging ev m) = m"
  by (cases m) (simp_all add: logging_def)

lemma try_words_log_result:
  assumes "\<And>s. snd (kl s) = k s"
  shows "snd (try_words_log E kl i ws st) = try_words E k i ws st"
proof (induction ws arbitrary: st)
  case Nil
  show ?case by simp
next
  case (Cons w ws)
  show ?case
    by (simp add: snd_bind_log assms Cons.IH if_distrib[of snd] cong: if_cong)
qed

lemma dfs_log_result: "snd (dfs_log E rest st) = dfs E rest st"
proof (induction rest arbitrary: st)
  case Nil
  show ?case by simp
next
  case (Cons i rest)
  have "snd (try_words_log E (dfs_log E rest) i ws s) = try_words E (dfs E rest) i ws s" for ws s
    by (rule try_words_log_result) (rule Cons.IH)
  then show ?case by (simp add: snd_bind_log)
qed

lemma find_solutions_logged_result:
  "snd (find_solutions_logged slots inters phrase cnd t m clock) =
     find_solutions_for_grid slots inters phrase cnd t m clock"
  by (simp add: find_solutions_logged_def find_solutions_for_grid_def snd_bind_log dfs_log_result)

lemma try_words_log_inv:
  assumes K: "\<And>s. search_inv E phrase s \<Longrightarrow> fst ` set (sol s) = insert i D \<Longrightarrow>
      (\<forall>e \<in> set (fst (kl s)). search_inv E phrase (state_of e)) \<and>
      (\<forall>s'. snd (kl s) = Inr s' \<longrightarrow> search_inv E phrase s' \<and> sol s' = sol s)"
    and sl: "dict_get (by_id E) i = Inr sl" "distinct (cells sl)" and iD: "i \<notin> D"
  shows "search_inv E phrase st \<Longrightarrow> fst ` set (sol st) = D \<Longrightarrow>
      (\<forall>e \<in> set (fst (try_words_log E kl i ws st)). search_inv E phrase (state_of e)) \<and>
      (\<forall>s'. snd (try_words_log E kl i ws st) = Inr s' \<longrightarrow> search_inv E phrase s' \<and> sol s' = sol st)"
proof (induction ws arbitrary: st)
  case Nil
  then show ?case by simp
next
  case (Cons w ws)
  show ?case
  proof (cases "expired E (checks st)")
    case True
    then show ?thesis using Cons.prems(1) by simp
  next
    case ne: False
    have It: "search_inv E phrase (tick st)" using Cons.prems(1) by simp
    have Dt: "fst ` set (sol (tick st)) = D" using Cons.prems(2) by simp
    show ?thesis
    proof (cases "can_place E (tick st) i w")
      case (Inl e)
      then show ?thesis using ne by (simp add: quiet_def)
    next
      case (Inr ok)
      show ?thesis
      proof (cases ok)
        case False
        then have "try_words_log E kl i (w # ws) st = try_words_log E kl i ws (tick st)"
          using ne Inr by (simp add: quiet_def)
        then show ?thesis using Cons.IH[OF It Dt] by simp
      next
        case True
        have fr: "i \<notin> fst ` set (sol (tick st))" using Dt iD by simp
        from place_inv[OF It fr sl] Inr True
        obtain st1 where st1: "place E i w (tick st) = Inr st1" "search_inv E phrase st1"
          "sol st1 = sol st @ [(i, w)]" by auto
        have d1: "fst ` set (sol st1) = insert i D" using st1(3) Cons.prems(2) by auto
        obtain l2 r2 where k1: "kl st1 = (l2, r2)" by (cases "kl st1") auto
        note Kc = K[OF st1(2) d1, unfolded k1 fst_conv snd_conv]
        have l2: "\<forall>e \<in> set l2. search_inv E phrase (state_of e)"
          by (rule Kc[THEN conjunct1])
        have r2: "\<And>s'. r2 = Inr s' \<Longrightarrow> search_inv E phrase s' \<and> sol s' = sol st1"
          using Kc[THEN conjunct2] by blast
        show ?thesis
        proof (cases r2)
          case (Inl e)
          then have "try_words_log E kl i (w # ws) st = (Placed st1 # l2, Inl e)"
            using ne Inr True st1(1) k1 by (simp add: quiet_def logging_def)
          then show ?thesis using st1(2) l2 by simp
        next
          case r2I: (Inr st2)
          from r2[OF r2I] have s2: "search_inv E phrase st2" "sol st2 = sol st1" by auto
          have mem: "(i, w) \<in> set (sol st2)" using s2(2) st1(3) by simp
          from unplace_inv[OF s2(1) mem sl]
          obtain st3 where st3: "unplace E i w st2 = Inr st3" "search_inv E phrase st3"
            "sol st3 = AList.delete i (sol st2)" by auto
          have sol3: "sol st3 = sol st"
            using st3(3) s2(2) st1(3) Cons.prems(2) iD
            by (metis delete_update_fresh update_fresh_append)
          define R where "R = (if int (length (solutions st3)) \<ge> max_solutions E then quiet (Inr st3)
              else if expired E (checks st3) then quiet (Inr (tick st3))
              else try_words_log E kl i ws (tick st3))"
          have tw: "try_words_log E kl i (w # ws) st =
              (Placed st1 # l2 @ Unplaced st3 # fst R, snd R)"
            unfolding try_words_log.simps R_def
            by (simp only: ne Inr True st1(1) k1 r2I st3(1) quiet_def logging_def bind_log_simps
                if_False if_True sum.case fst_conv snd_conv append_Nil append_Cons)
          have PR: "(\<forall>e \<in> set (fst R). search_inv E phrase (state_of e)) \<and>
              (\<forall>s'. snd R = Inr s' \<longrightarrow> search_inv E phrase s' \<and> sol s' = sol st)"
          proof (cases "int (length (solutions st3)) \<ge> max_solutions E")
            case True
            then have "R = ([], Inr st3)" by (simp add: R_def quiet_def)
            then show ?thesis using st3(2) sol3 by simp
          next
            case nmax: False
            show ?thesis
            proof (cases "expired E (checks st3)")
              case True
              then have "R = ([], Inr (tick st3))" using nmax by (simp add: R_def quiet_def)
              then show ?thesis using st3(2) sol3 by simp
            next
              case False
              then have RR: "R = try_words_log E kl i ws (tick st3)" using nmax by (simp add: R_def)
              have a: "search_inv E phrase (tick st3)" using st3(2) by simp
              have b: "fst ` set (sol (tick st3)) = D" using sol3 Cons.prems(2) by simp
              show ?thesis unfolding RR using Cons.IH[OF a b] sol3 by simp
            qed
          qed
          show ?thesis unfolding tw fst_conv snd_conv
          proof (intro conjI ballI)
            fix e assume "e \<in> set (Placed st1 # l2 @ Unplaced st3 # fst R)"
            then have "e = Placed st1 \<or> e = Unplaced st3 \<or> e \<in> set l2 \<or> e \<in> set (fst R)"
              by simp
            then show "search_inv E phrase (state_of e)"
              using st1(2) l2 st3(2) PR[THEN conjunct1] by (elim disjE) simp_all
          next
            show "\<forall>s'. snd R = Inr s' \<longrightarrow> search_inv E phrase s' \<and> sol s' = sol st"
              by (rule PR[THEN conjunct2])
          qed
        qed
      qed
    qed
  qed
qed

lemma dfs_log_inv:
  assumes wf: "\<And>i. i \<in> set (ids E) \<Longrightarrow> \<exists>s. dict_get (by_id E) i = Inr s \<and> distinct (cells s)"
  shows "set rest \<subseteq> set (ids E) \<Longrightarrow> distinct rest \<Longrightarrow> search_inv E phrase st \<Longrightarrow>
     fst ` set (sol st) = set (ids E) - set rest \<Longrightarrow>
     (\<forall>e \<in> set (fst (dfs_log E rest st)). search_inv E phrase (state_of e)) \<and>
     (\<forall>s'. snd (dfs_log E rest st) = Inr s' \<longrightarrow> search_inv E phrase s' \<and> sol s' = sol st)"
proof (induction rest arbitrary: st)
  case Nil
  show ?case
  proof (cases "expired E (checks st) \<or> int (length (solutions st)) \<ge> max_solutions E")
    case True
    then show ?thesis using Nil.prems(3) by auto
  next
    case False
    have "search_inv E phrase s' \<and> sol s' = sol st" if "record_solution E (tick st) = Inr s'" for s'
      using record_solution_sound[OF _ _ that, of phrase] Nil.prems(3,4) by simp
    then show ?thesis using False Nil.prems(3) by simp
  qed
next
  case (Cons i rest)
  show ?case
  proof (cases "expired E (checks st) \<or> int (length (solutions st)) \<ge> max_solutions E")
    case True
    then show ?thesis using Cons.prems(3) by auto
  next
    case False
    show ?thesis
    proof (cases "dict_get (cand E) i")
      case (Inl e)
      then show ?thesis using False by (simp add: quiet_def)
    next
      case (Inr ws)
      have i: "i \<in> set (ids E)" "i \<notin> set rest" using Cons.prems(1,2) by auto
      from wf[OF i(1)] obtain sl where sl: "dict_get (by_id E) i = Inr sl" "distinct (cells sl)" by blast
      define D where "D = set (ids E) - set (i # rest)"
      have insD: "insert i D = set (ids E) - set rest" using i by (auto simp: D_def)
      have run: "dfs_log E (i # rest) st = try_words_log E (dfs_log E rest) i ws (tick st)"
        using False Inr by (simp add: quiet_def)
      have "(\<forall>e \<in> set (fst (try_words_log E (dfs_log E rest) i ws (tick st))).
               search_inv E phrase (state_of e)) \<and>
            (\<forall>s'. snd (try_words_log E (dfs_log E rest) i ws (tick st)) = Inr s' \<longrightarrow>
               search_inv E phrase s' \<and> sol s' = sol (tick st))"
      proof (rule try_words_log_inv[OF _ sl])
        show "i \<notin> D" by (simp add: D_def)
        show "search_inv E phrase (tick st)" using Cons.prems(3) by simp
        show "fst ` set (sol (tick st)) = D" using Cons.prems(4) by (simp add: D_def)
        show "(\<forall>e \<in> set (fst (dfs_log E rest s)). search_inv E phrase (state_of e)) \<and>
              (\<forall>s'. snd (dfs_log E rest s) = Inr s' \<longrightarrow> search_inv E phrase s' \<and> sol s' = sol s)"
          if "search_inv E phrase s" "fst ` set (sol s) = insert i D" for s
          using Cons.IH[OF _ _ that(1)] that(2) insD Cons.prems(1,2) by simp
      qed
      then show ?thesis unfolding run by simp
    qed
  qed
qed

lemma search_inv_budget_ok:
  assumes "search_inv E phrase st"
  shows "budget_ok phrase st"
proof -
  have I0: "inv0 phrase (pieces_of E (sol st)) st" and nn: "\<And>ch. 0 \<le> counter_get (budget st) ch"
    using assms by (auto simp: search_inv_def)
  show ?thesis
    unfolding budget_ok_def using inv0D(1)[OF I0] inv0D(6)[OF I0] nn by blast
qed

lemma find_solutions_logged_events:
  assumes d: "distinct (map slot_id slots)" and dc: "\<And>s. s \<in> set slots \<Longrightarrow> distinct (cells s)"
    and e: "e \<in> set (fst (find_solutions_logged slots inters phrase cnd t m clock))"
  shows "\<exists>E. make_env slots inters cnd t m clock = Inr E \<and> search_inv E phrase (state_of e)"
proof (cases "make_env slots inters cnd t m clock")
  case (Inl err)
  then show ?thesis using e by (simp add: find_solutions_logged_def quiet_def)
next
  case (Inr E)
  note F = make_env_fields[OF Inr]
  have ids: "set (ids E) = slot_id ` set slots" "distinct (ids E)"
    using F(2) d by (metis mset_eq_setD set_map, metis mset_eq_imp_distinct_iff)
  have wf: "\<exists>s. dict_get (by_id E) i = Inr s \<and> distinct (cells s)" if "i \<in> set (ids E)" for i
  proof -
    from that ids(1) obtain s where s: "s \<in> set slots" "i = slot_id s" by auto
    then have "dict_get (by_id E) i = Inr s"
      using make_by_id_lookup[OF d s(1)] by (simp add: F(1) dict_get_def)
    then show ?thesis using dc[OF s(1)] by blast
  qed
  have "(\<forall>e \<in> set (fst (dfs_log E (ids E) (initial_state phrase))). search_inv E phrase (state_of e)) \<and>
     (\<forall>s'. snd (dfs_log E (ids E) (initial_state phrase)) = Inr s' \<longrightarrow>
        search_inv E phrase s' \<and> sol s' = sol (initial_state phrase))"
    by (rule dfs_log_inv[OF wf _ ids(2) search_inv_initial]) (simp_all add: initial_state_def)
  then have all: "\<forall>e \<in> set (fst (dfs_log E (ids E) (initial_state phrase))). search_inv E phrase (state_of e)"
    by (rule conjunct1)
  obtain l r where lr: "dfs_log E (ids E) (initial_state phrase) = (l, r)"
    by (cases "dfs_log E (ids E) (initial_state phrase)") auto
  have "fst (find_solutions_logged slots inters phrase cnd t m clock) = l"
    by (cases r) (simp_all add: find_solutions_logged_def Inr quiet_def lr)
  then have "e \<in> set l" using e by simp
  then have "search_inv E phrase (state_of e)" using all lr by simp
  then show ?thesis using Inr by blast
qed

lemma guard_budget_exact:
  assumes "list_all (\<lambda>(ch, v). v \<ge> 0) (budget st)"
  shows "budget_exact st \<longleftrightarrow> sum_list (map snd (budget st)) = 0"
  using assms by (simp add: budget_exact_def)

text \<open>
  C9.  The logged search returns what \<open>find_solutions_for_grid\<close> returns, so its log is the
  log of the search.  For slots with pairwise distinct ids and cells, the invariant holds
  in the initial state and in every logged state, that is after every \<open>place\<close> and every
  \<open>unplace\<close> of the search and at every goal test: every letter's budget is at least 0 and
  the budget plus the number of cells mapped to the letter is its count in the phrase
  letters.  In every state in which the goal test is evaluated, the guard
  \<open>all(v >= 0 for v in budget.values())\<close> is true, so the test is decided by
  \<open>sum(budget.values()) == 0\<close> alone.
\<close>

theorem search_budget_invariant:
  "snd (find_solutions_logged slots inters phrase cnd t m clock) =
     find_solutions_for_grid slots inters phrase cnd t m clock \<and>
   (distinct (map slot_id slots) \<and> (\<forall>s \<in> set slots. distinct (cells s)) \<longrightarrow>
      budget_ok phrase (initial_state phrase) \<and>
      (\<forall>e \<in> set (fst (find_solutions_logged slots inters phrase cnd t m clock)).
         budget_ok phrase (state_of e) \<and>
         (\<forall>st. e = Goal_test st \<longrightarrow>
            list_all (\<lambda>(ch, v). v \<ge> 0) (budget st) \<and>
            (budget_exact st \<longleftrightarrow> sum_list (map snd (budget st)) = 0))))"
proof (intro conjI impI ballI allI)
  show "snd (find_solutions_logged slots inters phrase cnd t m clock) =
     find_solutions_for_grid slots inters phrase cnd t m clock"
    by (rule find_solutions_logged_result)
next
  show "budget_ok phrase (initial_state phrase)"
    by (rule search_inv_budget_ok[OF search_inv_initial[of _ phrase]])
next
  fix e
  assume h: "distinct (map slot_id slots) \<and> (\<forall>s \<in> set slots. distinct (cells s))"
    and e: "e \<in> set (fst (find_solutions_logged slots inters phrase cnd t m clock))"
  from h have d: "distinct (map slot_id slots)" and dc: "\<And>s. s \<in> set slots \<Longrightarrow> distinct (cells s)"
    by blast+
  from find_solutions_logged_events[OF d dc e] obtain E where
    I: "search_inv E phrase (state_of e)" by blast
  show "budget_ok phrase (state_of e)" by (rule search_inv_budget_ok[OF I])
  fix st assume "e = Goal_test st"
  then have Is: "search_inv E phrase st" using I by simp
  show "list_all (\<lambda>(ch, v). v \<ge> 0) (budget st)" by (rule search_inv_guard[OF Is])
  then show "budget_exact st \<longleftrightarrow> sum_list (map snd (budget st)) = 0" by (rule guard_budget_exact)
qed

lemma demo_goal_logged:
  "Goal_test demo_goal \<in>
     set (fst (find_solutions_logged [demo_H, demo_V] [demo_x] (str ''ABC'') demo_cand 0 5 (\<lambda>_. False)))"
  by code_simp

lemma demo_log_budgets:
  "map (\<lambda>e. budget (state_of e))
     (fst (find_solutions_logged [demo_H, demo_V] [demo_x] (str ''ABC'') demo_cand 0 5 (\<lambda>_. False))) =
   [[(65, 0), (66, 0), (67, 1)], [(65, 0), (66, 0), (67, 0)], [(65, 0), (66, 0), (67, 0)],
    [(65, 0), (66, 0), (67, 1)], [(65, 1), (66, 1), (67, 1)], [(65, 0), (66, 1), (67, 0)],
    [(65, 0), (66, 0), (67, 0)], [(65, 0), (66, 0), (67, 0)], [(65, 0), (66, 1), (67, 0)],
    [(65, 1), (66, 1), (67, 1)]]"
  by code_simp

theorem search_budget_invariant_witness:
  "snd (find_solutions_logged [demo_H, demo_V] [demo_x] (str ''ABC'') demo_cand 0 5 (\<lambda>_. False)) =
     find_solutions_for_grid [demo_H, demo_V] [demo_x] (str ''ABC'') demo_cand 0 5 (\<lambda>_. False) \<and>
   Goal_test demo_goal \<in>
     set (fst (find_solutions_logged [demo_H, demo_V] [demo_x] (str ''ABC'') demo_cand 0 5 (\<lambda>_. False))) \<and>
   budget_ok (str ''ABC'') demo_goal \<and>
   list_all (\<lambda>(ch, v). v \<ge> 0) (budget demo_goal) \<and>
   (budget_exact demo_goal \<longleftrightarrow> sum_list (map snd (budget demo_goal)) = 0)"
proof -
  note T = search_budget_invariant[of "[demo_H, demo_V]" "[demo_x]" "str ''ABC''" demo_cand 0 5
      "\<lambda>_. False"]
  have h: "distinct (map slot_id [demo_H, demo_V]) \<and> (\<forall>s \<in> set [demo_H, demo_V]. distinct (cells s))"
    by (simp add: demo_H_def demo_V_def str_def)
  note A = T[THEN conjunct2, THEN mp, OF h, THEN conjunct2, THEN bspec, OF demo_goal_logged]
  have B: "budget_ok (str ''ABC'') demo_goal" using A[THEN conjunct1] by simp
  have C: "list_all (\<lambda>(ch, v). v \<ge> 0) (budget demo_goal) \<and>
      (budget_exact demo_goal \<longleftrightarrow> sum_list (map snd (budget demo_goal)) = 0)"
    using A[THEN conjunct2] by blast
  show ?thesis
    by (intro conjI) (fact T[THEN conjunct1] demo_goal_logged B C[THEN conjunct1] C[THEN conjunct2])+
qed

section \<open>Text normalisation\<close>

lemma filter_reorder_insert:
  "filter (\<lambda>c. cc c = 0) (reorder_insert cc x ys) = filter (\<lambda>c. cc c = 0) (x # ys)"
  by (induction ys) auto

lemma filter_canonical_order:
  "filter (\<lambda>c. cc c = 0) (canonical_order cc xs) = filter (\<lambda>c. cc c = 0) xs"
proof (induction xs)
  case Nil
  show ?case by (simp add: canonical_order_def)
next
  case (Cons x xs)
  have "filter (\<lambda>c. cc c = 0) (canonical_order cc (x # xs)) =
        filter (\<lambda>c. cc c = 0) (x # canonical_order cc xs)"
    by (simp only: canonical_order_def foldr.simps o_apply filter_reorder_insert)
  with Cons show ?case by simp
qed

lemma clean_phrase_unfold:
  "clean_phrase U p =
     filter (\<lambda>ch. 65 \<le> ch \<and> ch \<le> 90)
       (concat (map (upper_of U)
          (map (\<lambda>ch. case map_of single_letter_map ch of Some v \<Rightarrow> v | None \<Rightarrow> ch)
             (filter (\<lambda>c. ccc U c = 0) (concat (map (decomp U) p))))))"
  by (simp add: clean_phrase_def normalize_NFKD_def Let_def filter_canonical_order)

lemma clean_phrase_Nil [simp]: "clean_phrase U [] = []"
  by (simp add: clean_phrase_unfold)

lemma clean_phrase_append: "clean_phrase U (p @ q) = clean_phrase U p @ clean_phrase U q"
  by (simp add: clean_phrase_unfold)

lemma clean_phrase_Cons: "clean_phrase U (c # p) = clean_phrase U [c] @ clean_phrase U p"
  using clean_phrase_append[of U "[c]" p] by simp

lemma clean_phrase_AZ: "set (clean_phrase U p) \<subseteq> {65..90}"
  by (auto simp: clean_phrase_unfold)

lemma clean_phrase_char_le1:
  assumes d: "length (filter (\<lambda>d. ccc U d = 0) (decomp U c)) \<le> 1"
    and u: "\<And>d. length (filter (\<lambda>ch. 65 \<le> ch \<and> ch \<le> 90) (upper_of U d)) \<le> 1"
  shows "length (clean_phrase U [c]) \<le> 1"
proof (cases "filter (\<lambda>d. ccc U d = 0) (decomp U c)")
  case Nil
  then show ?thesis by (simp add: clean_phrase_unfold)
next
  case (Cons a as)
  with d have "as = []" by simp
  with Cons show ?thesis using u by (simp add: clean_phrase_unfold)
qed

lemma clean_phrase_length_le:
  assumes "\<And>c. c \<in> set p \<Longrightarrow> length (clean_phrase U [c]) \<le> 1"
  shows "length (clean_phrase U p) \<le> length p"
  using assms
proof (induction p)
  case Nil
  show ?case by simp
next
  case (Cons c p)
  have "length (clean_phrase U [c]) \<le> 1" by (rule Cons.prems) simp
  moreover have "length (clean_phrase U p) \<le> length p"
    by (rule Cons.IH) (rule Cons.prems, simp)
  ultimately show ?case by (simp add: clean_phrase_Cons[of U c p])
qed

lemma clean_phrase_table:
  assumes "(c, v) \<in> set single_letter_map" and "decomp U c = [c]" and "ccc U c = 0"
  shows "clean_phrase U [c] = filter (\<lambda>ch. 65 \<le> ch \<and> ch \<le> 90) (upper_of U v)"
proof -
  have "distinct (map fst single_letter_map)" by (simp add: single_letter_map_def)
  with assms(1) have "map_of single_letter_map c = Some v" by simp
  with assms(2,3) show ?thesis by (simp add: clean_phrase_unfold)
qed



lemma ucd_sample_upper_le1:
  "length (filter (\<lambda>ch. 65 \<le> ch \<and> ch \<le> 90) (upper_of ucd_sample d)) \<le> 1"
  by (simp add: ucd_sample_def)


section \<open>The fallback pool\<close>

lemma list_get_fold_append:
  "list_get (fold (\<lambda>w. dict_append (f w) w) ws d) n = list_get d n @ filter (\<lambda>w. f w = n) ws"
proof (induction ws arbitrary: d)
  case Nil
  show ?case by simp
next
  case (Cons w ws)
  show ?case by (simp add: Cons.IH list_get_dict_append)
qed

lemma list_get_build_by_len:
  "list_get (build_by_len best) n = filter (\<lambda>w. length w = n) (map fst best)"
proof -
  have "list_get [] n = ([] :: pystr list)" by (simp add: list_get_def)
  then show ?thesis by (simp add: build_by_len_def list_get_fold_append)
qed

lemma fallback_fold_keys:
  "distinct (map fst b) \<Longrightarrow>
   distinct (map fst (fold (\<lambda>w best. let c = f w in
             if 4 \<le> length c \<and> length c \<le> 7 then AList.update c None best else best) ws b)) \<and>
   fst ` set (fold (\<lambda>w best. let c = f w in
             if 4 \<le> length c \<and> length c \<le> 7 then AList.update c None best else best) ws b) =
     fst ` set b \<union> {c \<in> f ` set ws. 4 \<le> length c \<and> length c \<le> 7}"
proof (induction ws arbitrary: b)
  case Nil
  then show ?case by simp
next
  case (Cons w ws)
  let ?b = "if 4 \<le> length (f w) \<and> length (f w) \<le> 7 then AList.update (f w) None b else b"
  have d: "distinct (map fst ?b)" using Cons.prems by (simp add: distinct_update)
  have k: "fst ` set ?b = fst ` set b \<union> {c \<in> {f w}. 4 \<le> length c \<and> length c \<le> 7}"
    by (auto simp: dom_update)
  have "fst ` set b \<union> {c \<in> {f w}. 4 \<le> length c \<and> length c \<le> 7} \<union>
          {c \<in> f ` set ws. 4 \<le> length c \<and> length c \<le> 7} =
        fst ` set b \<union> {c \<in> f ` set (w # ws). 4 \<le> length c \<and> length c \<le> 7}"
    by auto
  with Cons.IH[OF d] k show ?case by (simp add: Let_def)
qed

lemma fallback_best_keys:
  "distinct (map fst (fallback_best U)) \<and>
   fst ` set (fallback_best U) =
     {c \<in> clean_phrase U ` set fallback_words. 4 \<le> length c \<and> length c \<le> 7}"
  using fallback_fold_keys[of "[]" "clean_phrase U" fallback_words]
  by (simp add: fallback_best_def)

text \<open>
  C8: when the file does not exist, \<open>load_dictionary\<close> returns (it raises nothing), and the
  bucket of every length \<open>n\<close> holds, without repetition, exactly the cleaned fallback words
  of length \<open>n\<close>, for \<open>n\<close> from 4 to 7; the other buckets are empty.
\<close>

theorem missing_file_fallback:
  assumes "fs path = None"
  shows "\<exists>by_len. load_dictionary U fs path min_rating = Inr by_len \<and>
           (\<forall>n. distinct (list_get by_len n) \<and>
                set (list_get by_len n) =
                  {c \<in> clean_phrase U ` set fallback_words. length c = n \<and> 4 \<le> n \<and> n \<le> 7})"
proof (intro exI conjI allI)
  show "load_dictionary U fs path min_rating = Inr (build_by_len (fallback_best U))"
    using assms by (simp add: load_dictionary_def)
next
  fix n
  show "distinct (list_get (build_by_len (fallback_best U)) n)"
    using fallback_best_keys[of U] by (simp add: list_get_build_by_len)
next
  fix n
  have "set (list_get (build_by_len (fallback_best U)) n) =
        {w \<in> fst ` set (fallback_best U). length w = n}"
    by (auto simp: list_get_build_by_len)
  also have "\<dots> = {c \<in> clean_phrase U ` set fallback_words. length c = n \<and> 4 \<le> n \<and> n \<le> 7}"
    using fallback_best_keys[of U] by auto
  finally show "set (list_get (build_by_len (fallback_best U)) n) =
        {c \<in> clean_phrase U ` set fallback_words. length c = n \<and> 4 \<le> n \<and> n \<le> 7}" .
qed

lemma clean_sample_capital:
  assumes "65 \<le> c" "c \<le> 90"
  shows "clean_phrase ucd_sample [c] = [c]"
proof -
  have "map_of single_letter_map c = None"
    using assms by (simp add: single_letter_map_def)
  then show ?thesis using assms by (simp add: clean_phrase_unfold ucd_sample_def)
qed

lemma clean_sample_capitals:
  "list_all (\<lambda>c. 65 \<le> c \<and> c \<le> 90) w \<Longrightarrow> clean_phrase ucd_sample w = w"
proof (induction w)
  case Nil
  show ?case by simp
next
  case (Cons c w)
  then show ?case using clean_phrase_Cons[of ucd_sample c w] by (simp add: clean_sample_capital)
qed

lemma fallback_best_sample:
  "fallback_best ucd_sample =
     map (\<lambda>w. (str w, None)) [''TITLE'', ''TENET'', ''LEVEL'', ''LILITH'', ''DENIES'', ''GUSTY'',
       ''GUTSY'', ''TATTY'', ''ANYHOW'', ''ANYHOO'', ''WANT'', ''WANTS'']"
  by (simp add: fallback_best_def fallback_words_def str_def clean_sample_capitals)

lemma fallback_sample:
  "load_dictionary ucd_sample (\<lambda>_. None) (str ''words.txt'') 5 =
     Inr [(5, map str [''TITLE'', ''TENET'', ''LEVEL'', ''GUSTY'', ''GUTSY'', ''TATTY'', ''WANTS'']),
          (6, map str [''LILITH'', ''DENIES'', ''ANYHOW'', ''ANYHOO'']),
          (4, map str [''WANT''])]"
  by (simp add: load_dictionary_def fallback_best_sample build_by_len_def dict_append_def str_def)

theorem missing_file_fallback_witness:
  "\<exists>by_len. load_dictionary ucd_sample (\<lambda>_. None) (str ''words.txt'') 5 = Inr by_len \<and>
      by_len = [(5, map str [''TITLE'', ''TENET'', ''LEVEL'', ''GUSTY'', ''GUTSY'', ''TATTY'', ''WANTS'']),
          (6, map str [''LILITH'', ''DENIES'', ''ANYHOW'', ''ANYHOO'']),
          (4, map str [''WANT''])] \<and>
      (\<forall>n. distinct (list_get by_len n) \<and>
           set (list_get by_len n) =
             {c \<in> clean_phrase ucd_sample ` set fallback_words. length c = n \<and> 4 \<le> n \<and> n \<le> 7})"
proof -
  from missing_file_fallback[of "\<lambda>_. None" "str ''words.txt''" ucd_sample 5, OF refl]
  obtain by_len where b: "load_dictionary ucd_sample (\<lambda>_. None) (str ''words.txt'') 5 = Inr by_len"
    "\<forall>n. distinct (list_get by_len n) \<and>
           set (list_get by_len n) =
             {c \<in> clean_phrase ucd_sample ` set fallback_words. length c = n \<and> 4 \<le> n \<and> n \<le> 7}"
    by (elim exE conjE) (rule that)
  from b(1) have c: "by_len = [(5, map str [''TITLE'', ''TENET'', ''LEVEL'', ''GUSTY'', ''GUTSY'', ''TATTY'', ''WANTS'']),
          (6, map str [''LILITH'', ''DENIES'', ''ANYHOW'', ''ANYHOO'']),
          (4, map str [''WANT''])]"
    by (simp only: fallback_sample sum.inject)
  show ?thesis by (intro exI[of _ by_len] conjI) (fact b c)+
qed

section \<open>Dictionary lines with a rating out of range\<close>

lemma dropWhile_append_keep:
  "ys \<noteq> [] \<Longrightarrow> \<not> P (hd ys) \<Longrightarrow> dropWhile P (xs @ ys) = dropWhile P xs @ ys"
  by (induction xs) (auto simp: neq_Nil_conv)

lemma strip_keeps_prefix:
  assumes "n \<noteq> []" "\<forall>c \<in> set n. \<not> is_space U c"
  shows "strip U (n @ t) = n @ rev (dropWhile (is_space U) (rev t))"
proof -
  have h: "\<not> is_space U (hd n)" using assms by simp
  have "dropWhile (is_space U) (n @ t) = n @ t"
    using assms h by (cases n) auto
  moreover have "dropWhile (is_space U) (rev t @ rev n) = dropWhile (is_space U) (rev t) @ rev n"
  proof (rule dropWhile_append_keep)
    show "rev n \<noteq> []" using assms(1) by simp
    have "hd (rev n) = last n" using assms(1) by (simp add: hd_rev)
    then show "\<not> is_space U (hd (rev n))" using assms by simp
  qed
  ultimately show ?thesis by (simp add: strip_def)
qed

lemma rstrip_Cons:
  "rev (dropWhile P (rev (x # xs))) = [] \<or> (\<exists>ys. rev (dropWhile P (rev (x # xs))) = x # ys)"
proof -
  let ?l = "rev (x # xs)"
  have "rev (dropWhile P ?l) = take (length ?l - length (takeWhile P ?l)) (rev ?l)"
    by (simp only: dropWhile_eq_drop rev_drop)
  also have "rev ?l = x # xs" by simp
  finally show ?thesis by (cases "length ?l - length (takeWhile P ?l)") auto
qed

lemma clean_phrase_vanish:
  "(\<And>c. c \<in> set ws \<Longrightarrow> clean_phrase U [c] = []) \<Longrightarrow> clean_phrase U ws = []"
proof (induction ws)
  case Nil
  show ?case by simp
next
  case (Cons c ws)
  then show ?case using clean_phrase_Cons[of U c ws] by simp
qed

lemma clean_phrase_strip:
  assumes "\<And>c. is_space U c \<Longrightarrow> clean_phrase U [c] = []"
  shows "clean_phrase U (strip U s) = clean_phrase U s"
proof -
  have l: "clean_phrase U (takeWhile (is_space U) xs) = []" for xs
    by (rule clean_phrase_vanish) (auto dest: set_takeWhileD intro: assms)
  have d: "clean_phrase U (dropWhile (is_space U) xs) = clean_phrase U xs" for xs
    using clean_phrase_append[of U "takeWhile (is_space U) xs" "dropWhile (is_space U) xs"] l[of xs]
    by simp
  define m where "m = dropWhile (is_space U) s"
  have r: "clean_phrase U (rev (takeWhile (is_space U) (rev m))) = []"
    by (rule clean_phrase_vanish) (auto dest: set_takeWhileD intro: assms)
  have "m = rev (dropWhile (is_space U) (rev m)) @ rev (takeWhile (is_space U) (rev m))"
    by (metis rev_append rev_rev_ident takeWhile_dropWhile_id)
  then have "clean_phrase U m =
      clean_phrase U (rev (dropWhile (is_space U) (rev m))) @
      clean_phrase U (rev (takeWhile (is_space U) (rev m)))"
    using clean_phrase_append[of U "rev (dropWhile (is_space U) (rev m))"
        "rev (takeWhile (is_space U) (rev m))"] by simp
  then have "clean_phrase U (rev (dropWhile (is_space U) (rev m))) = clean_phrase U m"
    using r by simp
  then show ?thesis using d[of s] by (simp add: strip_def m_def)
qed

lemma decimal_digits_ascii:
  assumes "\<And>c. 48 \<le> c \<and> c \<le> 57 \<Longrightarrow> decimal_value U c = Some (c - 48)"
  shows "\<forall>c \<in> set n. 48 \<le> c \<and> c \<le> 57 \<Longrightarrow> decimal_digits U n = Some (map (\<lambda>c. c - 48) n)"
proof (induction n)
  case Nil
  show ?case by simp
next
  case (Cons c n)
  then show ?case using assms[of c] by simp
qed

lemma reads_digitsD:
  assumes "reads_digits U"
  shows "\<And>c. 48 \<le> c \<and> c \<le> 57 \<Longrightarrow> is_digit U c"
    "\<And>c. 48 \<le> c \<and> c \<le> 57 \<Longrightarrow> decimal_value U c = Some (c - 48)"
    "\<And>c. 48 \<le> c \<and> c \<le> 57 \<Longrightarrow> \<not> is_space U c"
    "\<And>c. 48 \<le> c \<and> c \<le> 57 \<Longrightarrow> clean_phrase U [c] = []"
    "clean_phrase U [9] = []"
    "\<And>c. is_space U c \<Longrightarrow> clean_phrase U [c] = []"
proof -
  note R = assms[unfolded reads_digits_def]
  show "\<And>c. 48 \<le> c \<and> c \<le> 57 \<Longrightarrow> is_digit U c" using R[THEN conjunct1] by blast
  show "\<And>c. 48 \<le> c \<and> c \<le> 57 \<Longrightarrow> decimal_value U c = Some (c - 48)"
    using R[THEN conjunct1] by blast
  show "\<And>c. 48 \<le> c \<and> c \<le> 57 \<Longrightarrow> \<not> is_space U c" using R[THEN conjunct1] by blast
  show "\<And>c. 48 \<le> c \<and> c \<le> 57 \<Longrightarrow> clean_phrase U [c] = []" using R[THEN conjunct1] by blast
  show "clean_phrase U [9] = []" by (rule R[THEN conjunct2, THEN conjunct1])
  show "\<And>c. is_space U c \<Longrightarrow> clean_phrase U [c] = []"
    using R[THEN conjunct2, THEN conjunct2] by blast
qed

lemma py_int_ascii:
  assumes U: "reads_digits U" and n: "n \<noteq> []" "\<forall>c \<in> set n. 48 \<le> c \<and> c \<le> 57"
    and lim: "case max_str_digits U of Some l \<Rightarrow> length n \<le> l | None \<Rightarrow> True"
  shows "py_int U n = Inr (int (decimal n))"
proof -
  have "decimal_digits U n = Some (map (\<lambda>c. c - 48) n)"
    by (rule decimal_digits_ascii[OF reads_digitsD(2)[OF U] n(2)])
  moreover have "\<not> (case max_str_digits U of Some l \<Rightarrow> length n > l | None \<Rightarrow> False)"
    using lim by (cases "max_str_digits U") auto
  ultimately show ?thesis using n(1) by (simp add: py_int_def decimal_def)
qed

lemma out_of_range_line:
  assumes U: "reads_digits U" and n: "n \<noteq> []" "\<forall>c \<in> set n. 48 \<le> c \<and> c \<le> 57"
    and lim: "case max_str_digits U of Some l \<Rightarrow> length n \<le> l | None \<Rightarrow> True"
    and out: "\<not> (1 \<le> decimal n \<and> decimal n \<le> 10)"
  shows "strip U (n @ [9] @ word) \<noteq> []"
    and "parse_rating U (strip U (n @ [9] @ word)) = Inr (None, strip U (n @ [9] @ word))"
    and "clean_phrase U (strip U (n @ [9] @ word)) = clean_phrase U word"
proof -
  note D = reads_digitsD[OF U]
  have nsp: "\<forall>c \<in> set n. \<not> is_space U c" using n(2) D(3) by blast
  define t where "t = rev (dropWhile (is_space U) (rev (9 # word)))"
  have line': "strip U (n @ 9 # word) = n @ t"
    using strip_keeps_prefix[OF n(1) nsp, of "9 # word"] by (simp add: t_def)
  then have line: "strip U (n @ [9] @ word) = n @ t" by simp
  show "strip U (n @ [9] @ word) \<noteq> []" using n(1) by (simp add: line')
  have n9: "9 \<notin> set n" using n(2) by auto
  have stn: "strip U n = n" using strip_keeps_prefix[OF n(1) nsp, of "[]"] by simp
  have dig: "isdigit U n" using n D(1) by (auto simp: isdigit_def list_all_iff)
  have pi: "py_int U n = Inr (int (decimal n))" by (rule py_int_ascii[OF U n lim])
  have "parse_rating U (n @ t) = Inr (None, n @ t)"
  proof (cases t)
    case Nil
    then show ?thesis using n9 by (simp add: parse_rating_def)
  next
    case (Cons a ys)
    then have t: "t = 9 # ys" using rstrip_Cons[of "is_space U" 9 word] by (auto simp: t_def)
    have ne9: "\<And>x. x \<in> set n \<Longrightarrow> x \<noteq> 9" using n9 by auto
    have tw: "takeWhile (\<lambda>c. c \<noteq> 9) (n @ 9 # ys) = n"
      using takeWhile_append2[of n "\<lambda>c. c \<noteq> 9" "9 # ys", OF ne9] by simp
    have dw: "dropWhile (\<lambda>c. c \<noteq> 9) (n @ 9 # ys) = 9 # ys"
      using dropWhile_append2[of n "\<lambda>c. c \<noteq> 9" "9 # ys", OF ne9] by simp
    have "split_tab (n @ t) = (n, ys)"
      by (simp add: split_tab_def t tw dw)
    then show ?thesis using stn dig pi out
      by (simp add: parse_rating_def t)
  qed
  then show "parse_rating U (strip U (n @ [9] @ word)) = Inr (None, strip U (n @ [9] @ word))"
    by (simp only: line)
  have "clean_phrase U n = []" by (rule clean_phrase_vanish) (use n(2) D(4) in blast)
  moreover have "clean_phrase U (n @ [9] @ word) =
      clean_phrase U n @ clean_phrase U [9] @ clean_phrase U word"
    by (simp only: clean_phrase_append)
  ultimately have "clean_phrase U (n @ [9] @ word) = clean_phrase U word" using D(5) by simp
  then show "clean_phrase U (strip U (n @ [9] @ word)) = clean_phrase U word"
    using clean_phrase_strip[OF D(6), of "n @ [9] @ word"] by simp
qed

lemma keep_best_keys: "fst ` set (keep_best c r best) = insert c (fst ` set best)"
proof (cases "map_of best c")
  case None
  then show ?thesis by (simp add: keep_best_def dom_update)
next
  case (Some prev)
  then have "c \<in> fst ` set best" by (metis domI dom_map_of_conv_image_fst)
  then have "insert c (fst ` set best) = fst ` set best" by blast
  then show ?thesis using Some
    by (cases prev; cases r) (simp_all add: keep_best_def dom_update)
qed

lemma consider_entry_keys:
  assumes "consider_entry U r raw best = Inr best'"
  shows "fst ` set best \<subseteq> fst ` set best'"
proof (cases "strip U raw = []")
  case True
  then show ?thesis using assms by (simp add: consider_entry_def)
next
  case False
  then obtain rating entry where "parse_rating U (strip U raw) = Inr (rating, entry)"
    and b: "best' = best \<or> best' = keep_best (clean_phrase U entry) rating best"
    using assms by (auto simp: consider_entry_def Let_def bind_err_eq_Inr split: if_splits)
  then show ?thesis using keep_best_keys[of "clean_phrase U entry" rating best] by auto
qed

lemma fold_err_append:
  "fold_err f (xs @ ys) s = bind_err (fold_err f xs s) (fold_err f ys)"
  by (induction xs arbitrary: s) (simp_all add: bind_err_def split: sum.splits)

lemma fold_err_keys:
  "fold_err (consider_entry U r) xs best = Inr best' \<Longrightarrow> fst ` set best \<subseteq> fst ` set best'"
proof (induction xs arbitrary: best)
  case Nil
  then show ?case by simp
next
  case (Cons x xs)
  then obtain b1 where b1: "consider_entry U r x best = Inr b1"
    and r: "fold_err (consider_entry U r) xs b1 = Inr best'"
    by (auto simp: bind_err_eq_Inr)
  from consider_entry_keys[OF b1] Cons.IH[OF r] show ?case by blast
qed


lemma reads_digits_sample: "reads_digits ucd_sample"
proof -
  have t: "map_of single_letter_map c = None" if "c \<le> 57" for c
    using that by (simp add: single_letter_map_def)
  have d: "clean_phrase ucd_sample [c] = []" if "c \<le> 57" for c
    using that t[OF that] by (simp add: clean_phrase_unfold ucd_sample_def)
  have sp: "c \<le> 57" if "is_space ucd_sample c" for c
    using that by (auto simp: ucd_sample_def)
  show ?thesis
    unfolding reads_digits_def
  proof (intro conjI allI impI)
    fix c :: nat assume c: "48 \<le> c \<and> c \<le> 57"
    show "is_digit ucd_sample c" using c by (simp add: ucd_sample_def)
    show "decimal_value ucd_sample c = Some (c - 48)" using c by (simp add: ucd_sample_def)
    show "\<not> is_space ucd_sample c" using c by (auto simp: ucd_sample_def)
    show "clean_phrase ucd_sample [c] = []" using c d by simp
  next
    show "clean_phrase ucd_sample [9] = []" by (rule d) simp
  next
    fix c :: nat assume "is_space ucd_sample c"
    then show "clean_phrase ucd_sample [c] = []" using sp d by blast
  qed
qed

lemma clean_sample_zoomers:
  "clean_phrase ucd_sample (str ''zoomers'' @ [10]) = str ''ZOOMERS''"
  by (simp add: clean_phrase_unfold ucd_sample_def single_letter_map_def str_def)


end
